theory Spec2Isabelle
  imports Main "HOL-Library.Word" "HOL-Library.Signed_Division"
begin

section \<open>The channel library of cogcity.c (plan9\_compat.h layer)\<close>

text \<open>
  The Linux build of cogcity implements Plan 9 channels on top of pthreads:
  \<^verbatim>\<open>chancreate\<close>, \<^verbatim>\<open>chanfree\<close>, \<^verbatim>\<open>chansend\<close>, \<^verbatim>\<open>chanrecv\<close>, \<^verbatim>\<open>channbsend\<close>,
  \<^verbatim>\<open>channbrecv\<close>, \<^verbatim>\<open>alt\<close>, \<^verbatim>\<open>chanlen\<close> and \<^verbatim>\<open>chanclose\<close>.

  The embedding follows one calling thread through each function.
  \<^item> Memory is a store from addresses to \<^verbatim>\<open>Channel\<close> structs; a \<^verbatim>\<open>Channel*\<close> is
    \<open>None\<close> (nil) or \<open>Some a\<close>.  Dereferencing an address without a live struct is
    undefined behaviour.
  \<^item> The ring buffer and the caller's value slots are byte arrays; \<^verbatim>\<open>memcpy\<close> moves
    \<^verbatim>\<open>elemsize\<close> bytes and is undefined outside the arrays.
  \<^item> C \<^verbatim>\<open>int\<close> has 32 bits.  It is modelled by \<open>int\<close>, with the results that can leave
    the range reduced to 32 bits by \<open>wrap32\<close>, as the compiled code does: the product
    \<^verbatim>\<open>elemsize * bufsize\<close> handed to \<^verbatim>\<open>malloc\<close>, the sum \<^verbatim>\<open>off + nbuf\<close> and the byte
    offsets \<^verbatim>\<open>index * elemsize\<close>.  \<^verbatim>\<open>nbuf + 1\<close> is computed only after \<^verbatim>\<open>nbuf < bufsize\<close> and
    \<^verbatim>\<open>nbuf - 1\<close> only after \<^verbatim>\<open>nbuf > 0\<close>, so neither leaves the range; \<^verbatim>\<open>off + 1\<close> does not
    as long as \<^verbatim>\<open>off < bufsize\<close>.  \<^verbatim>\<open>%\<close> is the truncating \<open>smod\<close>; a remainder by zero, and
    the remainder of the least \<^verbatim>\<open>int\<close> by -1, are undefined behaviour.
  \<^item> The field \<open>lock\<close> says whether the mutex is held by some other thread at the
    moment of the call.  \<^verbatim>\<open>pthread_mutex_trylock\<close> fails on it, \<^verbatim>\<open>pthread_mutex_lock\<close>
    waits for it.
  \<^item> A call that waits (for the mutex or for a condition variable) and cannot continue
    unless another thread acts has the outcome \<open>Blocks\<close>.  The two condition variables
    carry no data of their own and have no field.
\<close>

type_synonym byte = "8 word"
type_synonym bytes = "byte list"

record Channel =
  buf :: "bytes option"
  elemsize :: int
  bufsize :: int
  nbuf :: int
  off :: int
  lock :: bool
  closed :: int

type_synonym heap = "nat \<Rightarrow> Channel option"

text \<open>
  An entry of the array handed to \<^verbatim>\<open>alt\<close>.  \<open>alt_v\<close> is the memory the entry's
  \<^verbatim>\<open>v\<close> pointer refers to.  The fields \<^verbatim>\<open>err\<close> and \<^verbatim>\<open>entryno\<close> are never read
  or written by \<^verbatim>\<open>alt\<close>.
\<close>

record Alt =
  alt_c :: "nat option"
  alt_v :: bytes
  alt_op :: int

definition CHANRCV :: int where "CHANRCV = 1"
definition CHANSND :: int where "CHANSND = 2"
definition CHANNOP :: int where "CHANNOP = 3"
definition CHANNOBLK :: int where "CHANNOBLK = 4"
definition CHANEND :: int where "CHANEND = 5"

datatype waiting = Mutex nat | NotFull nat | NotEmpty nat

datatype 'a outcome = Returns 'a | Blocks waiting | Undefined

subsection \<open>32-bit arithmetic\<close>

text \<open>The value of a 32-bit two's complement \<^verbatim>\<open>int\<close> computation whose exact result is \<open>x\<close>.\<close>

definition wrap32 :: "int \<Rightarrow> int" where
  "wrap32 x = (x + 2147483648) mod 4294967296 - 2147483648"

subsection \<open>Copying bytes\<close>

text \<open>
  \<open>memcpy dst d src s n\<close>: copy \<open>n\<close> bytes from offset \<open>s\<close> of \<open>src\<close> to offset \<open>d\<close>
  of \<open>dst\<close>.  The length argument is converted to \<^verbatim>\<open>size_t\<close>, so a negative \<open>n\<close> is
  a huge length; that and every access outside the two arrays is \<open>None\<close>.
\<close>

definition memcpy :: "bytes \<Rightarrow> nat \<Rightarrow> bytes \<Rightarrow> nat \<Rightarrow> int \<Rightarrow> bytes option" where
  "memcpy dst d src s n =
     (if 0 \<le> n \<and> d + nat n \<le> length dst \<and> s + nat n \<le> length src
      then Some (take d dst @ take (nat n) (drop s src) @ drop (d + nat n) dst)
      else None)"

text \<open>
  The block \<^verbatim>\<open>if (c->buf) { dst = buf + ((off + nbuf) % bufsize) * elemsize; memcpy(dst, v, elemsize); }\<close>
  of \<^verbatim>\<open>chansend\<close> and \<^verbatim>\<open>channbsend\<close>.
\<close>

definition put_elem :: "Channel \<Rightarrow> bytes \<Rightarrow> Channel option" where
  "put_elem c v =
     (case buf c of
        None \<Rightarrow> Some c
      | Some b \<Rightarrow>
          if bufsize c = 0 \<or> (wrap32 (off c + nbuf c) = - 2147483648 \<and> bufsize c = - 1) then None
          else let dst = wrap32 ((wrap32 (off c + nbuf c) smod bufsize c) * elemsize c) in
            if dst < 0 then None
            else (case memcpy b (nat dst) v 0 (elemsize c) of
                    None \<Rightarrow> None
                  | Some b' \<Rightarrow> Some (c\<lparr>buf := Some b'\<rparr>)))"

text \<open>
  The block \<^verbatim>\<open>if (c->buf) { src = buf + off * elemsize; memcpy(v, src, elemsize); }\<close>
  of \<^verbatim>\<open>chanrecv\<close> and \<^verbatim>\<open>channbrecv\<close>.
\<close>

definition get_elem :: "Channel \<Rightarrow> bytes \<Rightarrow> bytes option" where
  "get_elem c v =
     (case buf c of
        None \<Rightarrow> Some v
      | Some b \<Rightarrow>
          let src = wrap32 (off c * elemsize c) in
            if src < 0 then None else memcpy v 0 b (nat src) (elemsize c))"

subsection \<open>Creation and destruction\<close>

text \<open>
  \<^verbatim>\<open>malloc\<close> is external: \<open>mc\<close> is what \<^verbatim>\<open>malloc(sizeof(Channel))\<close> returns and
  \<open>mb n\<close> what \<^verbatim>\<open>malloc(n)\<close> returns for the buffer (\<open>None\<close> is a failed allocation).
  The size handed to it is the 32-bit product of the two \<^verbatim>\<open>int\<close> arguments.
\<close>

definition chancreate ::
  "nat option \<Rightarrow> (int \<Rightarrow> bytes option) \<Rightarrow> heap \<Rightarrow> int \<Rightarrow> int \<Rightarrow> nat option \<times> heap" where
  "chancreate mc mb h es bs =
     (case mc of
        None \<Rightarrow> (None, h)
      | Some a \<Rightarrow>
          let c = \<lparr>buf = None, elemsize = es, bufsize = bs, nbuf = 0, off = 0,
                   lock = False, closed = 0\<rparr>
          in if bs > 0
             then (case mb (wrap32 (es * bs)) of
                     None \<Rightarrow> (None, h)
                   | Some b \<Rightarrow> (Some a, h(a \<mapsto> c\<lparr>buf := Some b\<rparr>)))
             else (Some a, h(a \<mapsto> c)))"

definition chanfree :: "heap \<Rightarrow> nat option \<Rightarrow> heap outcome" where
  "chanfree h p =
     (case p of
        None \<Rightarrow> Returns h
      | Some a \<Rightarrow> (case h a of None \<Rightarrow> Undefined | Some c \<Rightarrow> Returns (h(a := None))))"

subsection \<open>Blocking send and receive\<close>

text \<open>
  The loop \<^verbatim>\<open>while (c->nbuf >= c->bufsize && !c->closed) pthread_cond_wait(...)\<close>.
  While the calling thread is the only one running, a wake-up finds the channel as it
  was; the loop ends only if its condition is false.
\<close>

partial_function (option) wait_notfull :: "Channel \<Rightarrow> Channel option" where
  "wait_notfull c =
     (if nbuf c \<ge> bufsize c \<and> closed c = 0 then wait_notfull c else Some c)"

text \<open>The loop \<^verbatim>\<open>while (c->nbuf <= 0 && !c->closed) pthread_cond_wait(...)\<close>.\<close>

partial_function (option) wait_notempty :: "Channel \<Rightarrow> Channel option" where
  "wait_notempty c =
     (if nbuf c \<le> 0 \<and> closed c = 0 then wait_notempty c else Some c)"

definition chansend :: "heap \<Rightarrow> nat option \<Rightarrow> bytes \<Rightarrow> (int \<times> heap) outcome" where
  "chansend h p v =
     (case p of
        None \<Rightarrow> Returns (- 1, h)
      | Some a \<Rightarrow>
         (case h a of
            None \<Rightarrow> Undefined
          | Some c \<Rightarrow>
              if lock c then Blocks (Mutex a)
              else if closed c \<noteq> 0 then Returns (- 1, h)
              else (case wait_notfull c of
                      None \<Rightarrow> Blocks (NotFull a)
                    | Some c1 \<Rightarrow>
                        if closed c1 \<noteq> 0 then Returns (- 1, h)
                        else (case put_elem c1 v of
                                None \<Rightarrow> Undefined
                              | Some c2 \<Rightarrow>
                                  Returns (1, h(a \<mapsto> c2\<lparr>nbuf := nbuf c2 + 1\<rparr>))))))"

definition chanrecv :: "heap \<Rightarrow> nat option \<Rightarrow> bytes \<Rightarrow> (int \<times> heap \<times> bytes) outcome" where
  "chanrecv h p v =
     (case p of
        None \<Rightarrow> Returns (- 1, h, v)
      | Some a \<Rightarrow>
         (case h a of
            None \<Rightarrow> Undefined
          | Some c \<Rightarrow>
              if lock c then Blocks (Mutex a)
              else (case wait_notempty c of
                      None \<Rightarrow> Blocks (NotEmpty a)
                    | Some c1 \<Rightarrow>
                        if nbuf c1 \<le> 0 \<and> closed c1 \<noteq> 0 then Returns (- 1, h, v)
                        else (case get_elem c1 v of
                                None \<Rightarrow> Undefined
                              | Some v' \<Rightarrow>
                                  if bufsize c1 = 0 then Undefined
                                  else Returns (1,
                                         h(a \<mapsto> c1\<lparr>off := (off c1 + 1) smod bufsize c1,
                                                    nbuf := nbuf c1 - 1\<rparr>),
                                         v')))))"

subsection \<open>Non-blocking send and receive\<close>

definition channbsend :: "heap \<Rightarrow> nat option \<Rightarrow> bytes \<Rightarrow> (int \<times> heap) outcome" where
  "channbsend h p v =
     (case p of
        None \<Rightarrow> Returns (0, h)
      | Some a \<Rightarrow>
         (case h a of
            None \<Rightarrow> Undefined
          | Some c \<Rightarrow>
              if lock c then Returns (0, h)
              else if closed c \<noteq> 0 \<or> nbuf c \<ge> bufsize c then Returns (0, h)
              else (case put_elem c v of
                      None \<Rightarrow> Undefined
                    | Some c2 \<Rightarrow> Returns (1, h(a \<mapsto> c2\<lparr>nbuf := nbuf c2 + 1\<rparr>)))))"

definition channbrecv :: "heap \<Rightarrow> nat option \<Rightarrow> bytes \<Rightarrow> (int \<times> heap \<times> bytes) outcome" where
  "channbrecv h p v =
     (case p of
        None \<Rightarrow> Returns (0, h, v)
      | Some a \<Rightarrow>
         (case h a of
            None \<Rightarrow> Undefined
          | Some c \<Rightarrow>
              if lock c then Returns (0, h, v)
              else if nbuf c \<le> 0 then Returns (0, h, v)
              else (case get_elem c v of
                      None \<Rightarrow> Undefined
                    | Some v' \<Rightarrow>
                        if bufsize c = 0 then Undefined
                        else Returns (1,
                               h(a \<mapsto> c\<lparr>off := (off c + 1) smod bufsize c,
                                         nbuf := nbuf c - 1\<rparr>),
                               v'))))"

subsection \<open>Length and close\<close>

definition chanlen :: "heap \<Rightarrow> nat option \<Rightarrow> int outcome" where
  "chanlen h p =
     (case p of
        None \<Rightarrow> Returns 0
      | Some a \<Rightarrow>
         (case h a of
            None \<Rightarrow> Undefined
          | Some c \<Rightarrow> if lock c then Blocks (Mutex a) else Returns (nbuf c)))"

definition chanclose :: "heap \<Rightarrow> nat option \<Rightarrow> heap outcome" where
  "chanclose h p =
     (case p of
        None \<Rightarrow> Returns h
      | Some a \<Rightarrow>
         (case h a of
            None \<Rightarrow> Undefined
          | Some c \<Rightarrow>
              if lock c then Blocks (Mutex a) else Returns (h(a \<mapsto> c\<lparr>closed := 1\<rparr>))))"

subsection \<open>alt\<close>

text \<open>
  The array \<open>alts\<close> is read at \<open>i = 0, 1, \<dots>\<close> until an entry with \<open>op = CHANEND\<close>;
  reading past its end is undefined behaviour.  The first loop tries the non-blocking
  operation of each entry; \<open>Returns (Some i, \<dots>)\<close> is \<^verbatim>\<open>return i\<close>, \<open>Returns (None, \<dots>)\<close>
  is the loop running into the sentinel.
\<close>

function alt_loop1 ::
  "heap \<Rightarrow> Alt list \<Rightarrow> nat \<Rightarrow> (int option \<times> heap \<times> Alt list) outcome" where
  "alt_loop1 h alts i =
     (if i \<ge> length alts then Undefined
      else if alt_op (alts ! i) = CHANEND then Returns (None, h, alts)
      else if alt_op (alts ! i) = CHANNOBLK then Returns (Some (int i), h, alts)
      else if alt_op (alts ! i) = CHANRCV then
        (case channbrecv h (alt_c (alts ! i)) (alt_v (alts ! i)) of
           Returns (r, h', v') \<Rightarrow>
             if r \<noteq> 0 then Returns (Some (int i), h', alts[i := (alts ! i)\<lparr>alt_v := v'\<rparr>])
             else alt_loop1 h' (alts[i := (alts ! i)\<lparr>alt_v := v'\<rparr>]) (i + 1)
         | Blocks w \<Rightarrow> Blocks w
         | Undefined \<Rightarrow> Undefined)
      else if alt_op (alts ! i) = CHANSND then
        (case channbsend h (alt_c (alts ! i)) (alt_v (alts ! i)) of
           Returns (r, h') \<Rightarrow>
             if r \<noteq> 0 then Returns (Some (int i), h', alts)
             else alt_loop1 h' alts (i + 1)
         | Blocks w \<Rightarrow> Blocks w
         | Undefined \<Rightarrow> Undefined)
      else alt_loop1 h alts (i + 1))"
  by pat_completeness auto
termination
  by (relation "measure (\<lambda>(h, alts, i). length alts - i)") auto

text \<open>The second loop performs the blocking operation of each entry in turn.\<close>

function alt_loop2 ::
  "heap \<Rightarrow> Alt list \<Rightarrow> nat \<Rightarrow> (int \<times> heap \<times> Alt list) outcome" where
  "alt_loop2 h alts i =
     (if i \<ge> length alts then Undefined
      else if alt_op (alts ! i) = CHANEND then Returns (- 1, h, alts)
      else if alt_op (alts ! i) = CHANRCV then
        (case chanrecv h (alt_c (alts ! i)) (alt_v (alts ! i)) of
           Returns (r, h', v') \<Rightarrow>
             if r > 0 then Returns (int i, h', alts[i := (alts ! i)\<lparr>alt_v := v'\<rparr>])
             else alt_loop2 h' (alts[i := (alts ! i)\<lparr>alt_v := v'\<rparr>]) (i + 1)
         | Blocks w \<Rightarrow> Blocks w
         | Undefined \<Rightarrow> Undefined)
      else if alt_op (alts ! i) = CHANSND then
        (case chansend h (alt_c (alts ! i)) (alt_v (alts ! i)) of
           Returns (r, h') \<Rightarrow>
             if r > 0 then Returns (int i, h', alts)
             else alt_loop2 h' alts (i + 1)
         | Blocks w \<Rightarrow> Blocks w
         | Undefined \<Rightarrow> Undefined)
      else alt_loop2 h alts (i + 1))"
  by pat_completeness auto
termination
  by (relation "measure (\<lambda>(h, alts, i). length alts - i)") auto

definition alt :: "heap \<Rightarrow> Alt list \<Rightarrow> (int \<times> heap \<times> Alt list) outcome" where
  "alt h alts =
     (case alt_loop1 h alts 0 of
        Returns (Some i, h', alts') \<Rightarrow> Returns (i, h', alts')
      | Returns (None, h', alts') \<Rightarrow> alt_loop2 h' alts' 0
      | Blocks w \<Rightarrow> Blocks w
      | Undefined \<Rightarrow> Undefined)"

declare alt_loop1.simps [simp del] alt_loop2.simps [simp del]

section \<open>Scenarios and invariants\<close>

subsection \<open>Sequences of calls\<close>

text \<open>
  \<open>send_all\<close> performs one \<^verbatim>\<open>chansend\<close> per value, in order, and collects the return
  codes; \<open>recv_all\<close> performs one \<^verbatim>\<open>chanrecv\<close> per value slot of the receiver and
  collects the return code and the slot's contents after each call.  Either stops at the
  first call that does not return.
\<close>

fun send_all :: "heap \<Rightarrow> nat option \<Rightarrow> bytes list \<Rightarrow> (int list \<times> heap) outcome" where
  "send_all h p [] = Returns ([], h)"
| "send_all h p (v # vs) =
     (case chansend h p v of
        Returns (r, h') \<Rightarrow>
          (case send_all h' p vs of
             Returns (rs, h'') \<Rightarrow> Returns (r # rs, h'')
           | Blocks w \<Rightarrow> Blocks w
           | Undefined \<Rightarrow> Undefined)
      | Blocks w \<Rightarrow> Blocks w
      | Undefined \<Rightarrow> Undefined)"

fun recv_all ::
  "heap \<Rightarrow> nat option \<Rightarrow> bytes list \<Rightarrow> ((int \<times> bytes) list \<times> heap) outcome" where
  "recv_all h p [] = Returns ([], h)"
| "recv_all h p (d # ds) =
     (case chanrecv h p d of
        Returns (r, h', d') \<Rightarrow>
          (case recv_all h' p ds of
             Returns (rs, h'') \<Rightarrow> Returns ((r, d') # rs, h'')
           | Blocks w \<Rightarrow> Blocks w
           | Undefined \<Rightarrow> Undefined)
      | Blocks w \<Rightarrow> Blocks w
      | Undefined \<Rightarrow> Undefined)"

text \<open>
  A history of calls on the store, made one at a time by any threads: each entry is a
  channel pointer and a call.  A call that blocks leaves the store as it is (its thread
  stays suspended) and the history goes on with the calls of the others.
\<close>

datatype chan_op = Send bytes | Recv bytes | NbSend bytes | NbRecv bytes | Close

fun apply_op :: "heap \<Rightarrow> nat option \<Rightarrow> chan_op \<Rightarrow> heap outcome" where
  "apply_op h p (Send v) =
     (case chansend h p v of
        Returns (r, h') \<Rightarrow> Returns h' | Blocks w \<Rightarrow> Blocks w | Undefined \<Rightarrow> Undefined)"
| "apply_op h p (Recv v) =
     (case chanrecv h p v of
        Returns (r, h', v') \<Rightarrow> Returns h' | Blocks w \<Rightarrow> Blocks w | Undefined \<Rightarrow> Undefined)"
| "apply_op h p (NbSend v) =
     (case channbsend h p v of
        Returns (r, h') \<Rightarrow> Returns h' | Blocks w \<Rightarrow> Blocks w | Undefined \<Rightarrow> Undefined)"
| "apply_op h p (NbRecv v) =
     (case channbrecv h p v of
        Returns (r, h', v') \<Rightarrow> Returns h' | Blocks w \<Rightarrow> Blocks w | Undefined \<Rightarrow> Undefined)"
| "apply_op h p Close = chanclose h p"

fun run :: "heap \<Rightarrow> (nat option \<times> chan_op) list \<Rightarrow> heap outcome" where
  "run h [] = Returns h"
| "run h ((p, x) # xs) =
     (case apply_op h p x of
        Returns h' \<Rightarrow> run h' xs
      | Blocks w \<Rightarrow> run h xs
      | Undefined \<Rightarrow> Undefined)"

text \<open>The value or slot handed to a call holds at least one element of \<open>es\<close> bytes.\<close>

fun op_fits :: "int \<Rightarrow> chan_op \<Rightarrow> bool" where
  "op_fits es (Send v) = (es \<le> int (length v))"
| "op_fits es (Recv v) = (es \<le> int (length v))"
| "op_fits es (NbSend v) = (es \<le> int (length v))"
| "op_fits es (NbRecv v) = (es \<le> int (length v))"
| "op_fits es Close = True"

text \<open>\<^verbatim>\<open>alt\<close> with both of its loops started at index \<open>k\<close> instead of 0.\<close>

definition alt_from :: "nat \<Rightarrow> heap \<Rightarrow> Alt list \<Rightarrow> (int \<times> heap \<times> Alt list) outcome" where
  "alt_from k h alts =
     (case alt_loop1 h alts k of
        Returns (Some i, h', alts') \<Rightarrow> Returns (i, h', alts')
      | Returns (None, h', alts') \<Rightarrow> alt_loop2 h' alts' k
      | Blocks w \<Rightarrow> Blocks w
      | Undefined \<Rightarrow> Undefined)"

text \<open>
  The blocking operation that the second loop of \<^verbatim>\<open>alt\<close> performs for a receive or send
  entry, with the entry's value slot after the call.
\<close>

definition blocking_op :: "heap \<Rightarrow> Alt \<Rightarrow> (int \<times> heap \<times> bytes) outcome" where
  "blocking_op h e =
     (if alt_op e = CHANRCV then chanrecv h (alt_c e) (alt_v e)
      else (case chansend h (alt_c e) (alt_v e) of
              Returns (r, h') \<Rightarrow> Returns (r, h', alt_v e)
            | Blocks w \<Rightarrow> Blocks w
            | Undefined \<Rightarrow> Undefined))"

subsection \<open>The buffered values\<close>

text \<open>
  \<open>slot b es k\<close> is element \<open>k\<close> of the buffer, the \<open>es\<close> bytes at \<open>k * es\<close>.
  \<open>contents c\<close> lists the buffered values of the channel in buffer order: the \<open>nbuf\<close>
  elements at the positions \<open>off, off + 1, \<dots>\<close> modulo \<open>bufsize\<close>.
\<close>

definition slot :: "bytes \<Rightarrow> int \<Rightarrow> int \<Rightarrow> bytes" where
  "slot b es k = take (nat es) (drop (nat (k * es)) b)"

definition contents :: "Channel \<Rightarrow> bytes list" where
  "contents c =
     (case buf c of
        None \<Rightarrow> []
      | Some b \<Rightarrow>
          map (\<lambda>i. slot b (elemsize c) ((off c + int i) mod bufsize c)) [0..<nat (nbuf c)])"

text \<open>
  The state invariant of the specification: \<open>0 \<le> count \<le> capacity\<close> and
  \<open>0 \<le> offset < capacity\<close> when \<open>capacity > 0\<close>.
\<close>

definition chan_inv :: "Channel \<Rightarrow> bool" where
  "chan_inv c =
     (0 \<le> nbuf c \<and> nbuf c \<le> bufsize c \<and> (0 < bufsize c \<longrightarrow> 0 \<le> off c \<and> off c < bufsize c))"

text \<open>
  Sizes whose buffer fits an \<^verbatim>\<open>int\<close>: the element size is not negative and the buffer size
  \<open>es * bs\<close> is below \<open>2^31\<close>, so that neither the product handed to \<^verbatim>\<open>malloc\<close> nor a byte
  offset into the buffer wraps.
\<close>

definition sizes_ok :: "int \<Rightarrow> int \<Rightarrow> bool" where
  "sizes_ok es bs = (0 \<le> es \<and> es * bs < 2147483648)"

text \<open>
  The representation invariant that \<^verbatim>\<open>chancreate\<close> establishes for such sizes: a channel
  with \<open>bufsize > 0\<close> owns a buffer of \<open>elemsize * bufsize\<close> bytes, a channel with
  \<open>bufsize \<le> 0\<close> has no buffer and holds nothing.
\<close>

definition chan_wf :: "Channel \<Rightarrow> bool" where
  "chan_wf c =
     (0 \<le> nbuf c \<and> 0 \<le> off c \<and>
      (if 0 < bufsize c
       then nbuf c \<le> bufsize c \<and> off c < bufsize c \<and> sizes_ok (elemsize c) (bufsize c) \<and>
            (case buf c of
               None \<Rightarrow> False
             | Some b \<Rightarrow> int (length b) = elemsize c * bufsize c)
       else nbuf c = 0 \<and> buf c = None))"

text \<open>
  A channel holds its values: the count is not negative, and when it is positive the
  element size is not negative, the offset lies in the ring and every occupied element
  lies inside the buffer, whose size an \<^verbatim>\<open>int\<close> holds.  This is all that the receiving
  side relies on.
\<close>

definition chan_holds :: "Channel \<Rightarrow> bool" where
  "chan_holds c =
     (0 \<le> nbuf c \<and>
      (0 < nbuf c \<longrightarrow>
         0 \<le> elemsize c \<and> 0 \<le> off c \<and> off c < bufsize c \<and>
         (case buf c of
            None \<Rightarrow> False
          | Some b \<Rightarrow>
              int (length b) < 2147483648 \<and>
              (\<forall>i\<in>set [0..<nat (nbuf c)].
                 ((off c + int i) mod bufsize c + 1) * elemsize c \<le> int (length b)))))"

text \<open>
  The invariant of the channels that \<^verbatim>\<open>chancreate\<close> returns, for any sizes, and that the
  operations leave: the elements at the positions used so far, \<open>0, \<dots>, off + nbuf - 1\<close>
  or the whole ring once the offset has gone around, lie inside the buffer; a channel
  with a negative element size stays empty; and \<^verbatim>\<open>off + nbuf\<close> has not passed \<open>2^31\<close>
  unless the element size is 0.
\<close>

definition chan_reach :: "Channel \<Rightarrow> bool" where
  "chan_reach c =
     (0 \<le> nbuf c \<and> 0 \<le> off c \<and>
      (if 0 < bufsize c
       then nbuf c \<le> bufsize c \<and> off c < bufsize c \<and>
            (case buf c of
               None \<Rightarrow> False
             | Some b \<Rightarrow>
                 int (length b) < 2147483648 \<and>
                 (if elemsize c < 0 then nbuf c = 0
                  else min (off c + nbuf c) (bufsize c) * elemsize c \<le> int (length b) \<and>
                       (0 < elemsize c \<longrightarrow> off c + nbuf c \<le> 2147483648)))
       else nbuf c = 0 \<and> buf c = None))"

text \<open>
  What the model asks of \<^verbatim>\<open>malloc\<close>: a successful call for \<open>n\<close> bytes returns \<open>n\<close>
  bytes, and a negative \<open>n\<close> (a request of more than half the address space after
  conversion to \<^verbatim>\<open>size_t\<close>) fails.
\<close>

definition malloc_ok :: "(int \<Rightarrow> bytes option) \<Rightarrow> bool" where
  "malloc_ok mb = (\<forall>n b. mb n = Some b \<longrightarrow> 0 \<le> n \<and> int (length b) = n)"

section \<open>Arithmetic and buffer lemmas\<close>

lemma smod_nonneg: "0 \<le> k \<Longrightarrow> 0 < l \<Longrightarrow> k smod l = k mod (l::int)"
  by (cases "k = 0") (simp_all add: signed_modulo_int_def)

lemma wrap32_id: "- 2147483648 \<le> x \<Longrightarrow> x < 2147483648 \<Longrightarrow> wrap32 x = x"
  by (simp add: wrap32_def)

lemma slot_offset_range:
  assumes "0 \<le> es" "0 \<le> k" "k < bs" "es * bs < (2147483648::int)"
  shows "0 \<le> k * es \<and> k * es < 2147483648"
proof -
  have "k * es \<le> bs * es" using assms by (intro mult_right_mono) auto
  moreover have "0 \<le> k * es" using assms by simp
  ultimately show ?thesis using assms(4) by (simp add: mult.commute)
qed

lemma slot_bounds:
  assumes "0 \<le> es" "0 \<le> k" "k < n" "int (length b) = es * n"
  shows "nat (k * es) + nat es \<le> length b"
proof -
  have "(k + 1) * es \<le> n * es" using assms by (intro mult_right_mono) auto
  then have "k * es + es \<le> int (length b)" using assms by (simp add: algebra_simps)
  moreover have "0 \<le> k * es" using assms by simp
  moreover have "nat (k * es) + nat es = nat (k * es + es)"
    using assms \<open>0 \<le> k * es\<close> by (simp add: nat_add_distrib)
  ultimately show ?thesis by simp
qed

lemma slot_lt:
  assumes "0 \<le> es" "0 \<le> j" "j < k"
  shows "nat (j * es) + nat es \<le> nat (k * es)"
proof -
  have "(j + 1) * es \<le> k * es" using assms by (intro mult_right_mono) auto
  moreover have "0 \<le> j * es" using assms by simp
  moreover have "nat (j * es) + nat es = nat ((j + 1) * es)"
    using assms \<open>0 \<le> j * es\<close> by (simp add: nat_add_distrib algebra_simps)
  ultimately show ?thesis by (simp add: nat_mono)
qed

lemma splice_hi:
  "K + E \<le> J \<Longrightarrow> K + E \<le> length b \<Longrightarrow> E \<le> length v \<Longrightarrow>
   take E (drop J (take K b @ take E v @ drop (K + E) b)) = take E (drop J (b::'a list))"
  by (auto simp add: min_def)

lemma splice_lo:
  "J + E \<le> K \<Longrightarrow> K + E \<le> length b \<Longrightarrow>
   take E (drop J (take K b @ take E v @ drop (K + E) b)) = take E (drop J (b::'a list))"
  by (simp add: min_def take_drop)

lemma splice_same:
  "K + E \<le> length b \<Longrightarrow> E \<le> length v \<Longrightarrow>
   take E (drop K (take K b @ take E v @ drop (K + E) b)) = take E (v::'a list)"
  by (simp add: min_def)

lemma memcpy_put:
  assumes "0 \<le> es" "0 \<le> k" "k < n" "int (length b) = es * n" "es \<le> int (length v)"
  shows "\<exists>b'. memcpy b (nat (k * es)) v 0 es = Some b' \<and> length b' = length b \<and>
           slot b' es k = take (nat es) v \<and>
           (\<forall>j. 0 \<le> j \<and> j < n \<and> j \<noteq> k \<longrightarrow> slot b' es j = slot b es j)"
proof -
  let ?K = "nat (k * es)" and ?E = "nat es"
  let ?b' = "take ?K b @ take ?E v @ drop (?K + ?E) b"
  have kb: "?K + ?E \<le> length b" using slot_bounds[OF assms(1-4)] .
  have ev: "?E \<le> length v" using assms by linarith
  have m: "memcpy b ?K v 0 es = Some ?b'"
    using kb ev assms(1) by (simp add: memcpy_def)
  have len: "length ?b' = length b" using kb ev by simp
  have same: "slot ?b' es k = take ?E v"
    using kb ev unfolding slot_def by (rule splice_same)
  have other: "slot ?b' es j = slot b es j" if j: "0 \<le> j" "j < n" "j \<noteq> k" for j
  proof (cases "j < k")
    case True
    have "nat (j * es) + ?E \<le> ?K" using slot_lt[OF assms(1) j(1) True] .
    then show ?thesis using kb unfolding slot_def by (rule splice_lo)
  next
    case False
    then have "k < j" using j by simp
    have "?K + ?E \<le> nat (j * es)" using slot_lt[OF assms(1,2) \<open>k < j\<close>] .
    then show ?thesis using kb ev unfolding slot_def by (rule splice_hi)
  qed
  show ?thesis using m len same other by blast
qed

lemma memcpy_get:
  assumes "0 \<le> es" "0 \<le> k" "k < n" "int (length b) = es * n" "es \<le> int (length v)"
  shows "memcpy v 0 b (nat (k * es)) es = Some (slot b es k @ drop (nat es) v)"
proof -
  have kb: "nat (k * es) + nat es \<le> length b" using slot_bounds[OF assms(1-4)] .
  have ev: "nat es \<le> length v" using assms by linarith
  show ?thesis using kb ev assms(1) by (simp add: memcpy_def slot_def)
qed


lemma mod_distinct:
  assumes "0 \<le> i" "i < n" "n < bs"
  shows "(x + i) mod bs \<noteq> (x + n) mod (bs::int)"
proof
  assume "(x + i) mod bs = (x + n) mod bs"
  then have "bs dvd (x + i) - (x + n)" by (simp add: mod_eq_dvd_iff)
  then have "bs dvd n - i" by (simp add: dvd_diff_commute)
  then have "bs \<le> n - i" using assms by (intro zdvd_imp_le) auto
  then show False using assms by simp
qed

lemma length_contents: "chan_wf c \<Longrightarrow> length (contents c) = nat (nbuf c)"
  by (auto simp: chan_wf_def sizes_ok_def contents_def split: option.splits if_splits)

lemma put_elem_ok:
  assumes "chan_wf c" "nbuf c < bufsize c" "elemsize c \<le> int (length v)"
    "off c + nbuf c < 2147483648"
  shows "\<exists>b'. put_elem c v = Some (c\<lparr>buf := Some b'\<rparr>) \<and>
           chan_wf (c\<lparr>buf := Some b', nbuf := nbuf c + 1\<rparr>) \<and>
           contents (c\<lparr>buf := Some b', nbuf := nbuf c + 1\<rparr>) =
             contents c @ [take (nat (elemsize c)) v]"
proof -
  from assms(1,2) have bs: "0 < bufsize c" and n0: "0 \<le> nbuf c" and o0: "0 \<le> off c"
    and ob: "off c < bufsize c" and es: "0 \<le> elemsize c"
    by (auto simp: chan_wf_def sizes_ok_def split: if_splits)
  from assms(1) bs obtain b where b: "buf c = Some b"
    and lb: "int (length b) = elemsize c * bufsize c"
    by (auto simp: chan_wf_def sizes_ok_def split: option.splits)
  from assms(1) bs have sz: "elemsize c * bufsize c < 2147483648"
    by (auto simp: chan_wf_def sizes_ok_def split: if_splits)
  let ?k = "(off c + nbuf c) mod bufsize c"
  have sum: "wrap32 (off c + nbuf c) = off c + nbuf c"
    using n0 o0 assms(4) by (intro wrap32_id) auto
  have k: "(off c + nbuf c) smod bufsize c = ?k" using n0 o0 bs by (simp add: smod_nonneg)
  have k0: "0 \<le> ?k" and kb: "?k < bufsize c" using bs by simp_all
  have kr: "wrap32 (?k * elemsize c) = ?k * elemsize c"
    using slot_offset_range[OF es k0 kb sz] by (intro wrap32_id) auto
  have nm: "bufsize c \<noteq> - 1" "bufsize c \<noteq> 0" using bs by auto
  from memcpy_put[OF es k0 kb lb assms(3)] obtain b' where
    m: "memcpy b (nat (?k * elemsize c)) v 0 (elemsize c) = Some b'" and
    len: "length b' = length b" and
    same: "slot b' (elemsize c) ?k = take (nat (elemsize c)) v" and
    other: "\<And>j. 0 \<le> j \<Longrightarrow> j < bufsize c \<Longrightarrow> j \<noteq> ?k \<Longrightarrow>
              slot b' (elemsize c) j = slot b (elemsize c) j"
    by blast
  have k_es: "0 \<le> ?k * elemsize c" using k0 es by simp
  have p: "put_elem c v = Some (c\<lparr>buf := Some b'\<rparr>)"
    using b nm k m k_es by (simp add: put_elem_def Let_def sum kr)
  have w: "chan_wf (c\<lparr>buf := Some b', nbuf := nbuf c + 1\<rparr>)"
    using assms(1,2) bs len lb by (simp add: chan_wf_def sizes_ok_def)
  have n: "nat (nbuf c + 1) = Suc (nat (nbuf c))" using n0 by simp
  have old: "slot b' (elemsize c) ((off c + int i) mod bufsize c) =
             slot b (elemsize c) ((off c + int i) mod bufsize c)" if "i < nat (nbuf c)" for i
  proof -
    have "(off c + int i) mod bufsize c \<noteq> (off c + nbuf c) mod bufsize c"
      using that assms(2) by (intro mod_distinct) auto
    then show ?thesis using bs by (intro other) auto
  qed
  have ct: "contents (c\<lparr>buf := Some b', nbuf := nbuf c + 1\<rparr>) =
            contents c @ [take (nat (elemsize c)) v]"
    using old same n0 by (simp add: contents_def b n)
  from p w ct show ?thesis by blast
qed

lemma get_elem_ok:
  assumes "chan_wf c" "0 < nbuf c" "elemsize c \<le> int (length v)"
  shows "get_elem c v = Some (hd (contents c) @ drop (nat (elemsize c)) v) \<and>
         bufsize c \<noteq> 0 \<and>
         chan_wf (c\<lparr>off := (off c + 1) smod bufsize c, nbuf := nbuf c - 1\<rparr>) \<and>
         contents (c\<lparr>off := (off c + 1) smod bufsize c, nbuf := nbuf c - 1\<rparr>) =
           tl (contents c)"
proof -
  from assms(1,2) have bs: "0 < bufsize c" and o0: "0 \<le> off c"
    and ob: "off c < bufsize c" and es: "0 \<le> elemsize c" and nb: "nbuf c \<le> bufsize c"
    by (auto simp: chan_wf_def sizes_ok_def split: if_splits)
  from assms(1) bs obtain b where b: "buf c = Some b"
    and lb: "int (length b) = elemsize c * bufsize c"
    by (auto simp: chan_wf_def sizes_ok_def split: option.splits)
  obtain m where m: "nat (nbuf c) = Suc m" using assms(2) by (cases "nat (nbuf c)") auto
  then have m': "nat (nbuf c - 1) = m" by simp
  have up: "[0..<Suc m] = 0 # map Suc [0..<m]" by (simp add: upt_conv_Cons map_Suc_upt del: upt_Suc)
  have hd: "hd (contents c) = slot b (elemsize c) (off c)"
    using o0 ob by (simp add: contents_def b m up del: upt_Suc)
  from assms(1) bs have sz: "elemsize c * bufsize c < 2147483648"
    by (auto simp: chan_wf_def sizes_ok_def split: if_splits)
  have oe: "\<not> off c * elemsize c < 0" using o0 es by (simp add: not_less)
  have orr: "wrap32 (off c * elemsize c) = off c * elemsize c"
    using slot_offset_range[OF es o0 ob sz] by (intro wrap32_id) auto
  have g: "get_elem c v = Some (hd (contents c) @ drop (nat (elemsize c)) v)"
    using memcpy_get[OF es o0 ob lb assms(3)] oe by (simp add: get_elem_def b hd Let_def orr)
  have o': "(off c + 1) smod bufsize c = (off c + 1) mod bufsize c"
    using o0 bs by (simp add: smod_nonneg)
  have w: "chan_wf (c\<lparr>off := (off c + 1) smod bufsize c, nbuf := nbuf c - 1\<rparr>)"
    using assms(1,2) bs by (simp add: chan_wf_def sizes_ok_def o' b)
  have sh: "((off c + 1) mod bufsize c + int i) mod bufsize c = (off c + int (Suc i)) mod bufsize c" for i
  proof -
    have "((off c + 1) mod bufsize c + int i) mod bufsize c = ((off c + 1) + int i) mod bufsize c"
      by (rule mod_add_left_eq)
    then show ?thesis by (simp add: algebra_simps)
  qed
  have t: "contents (c\<lparr>off := (off c + 1) smod bufsize c, nbuf := nbuf c - 1\<rparr>) = tl (contents c)"
    by (simp add: contents_def b m m' up o' sh del: upt_Suc)
  from g w t bs show ?thesis by simp
qed


lemma wait_notfull_Some:
  "wait_notfull x = Some y \<Longrightarrow> \<not> (nbuf x \<ge> bufsize x \<and> closed x = 0)"
  by (rule wait_notfull.raw_induct[where P = "\<lambda>x y. \<not> (nbuf x \<ge> bufsize x \<and> closed x = 0)"])
     (auto split: if_splits)

lemma wait_notfull_eq:
  "wait_notfull c = (if nbuf c \<ge> bufsize c \<and> closed c = 0 then None else Some c)"
proof (cases "nbuf c \<ge> bufsize c \<and> closed c = 0")
  case False
  then show ?thesis by (subst wait_notfull.simps) auto
next
  case True
  with wait_notfull_Some[of c] show ?thesis by (cases "wait_notfull c") auto
qed

lemma wait_notempty_Some:
  "wait_notempty x = Some y \<Longrightarrow> \<not> (nbuf x \<le> 0 \<and> closed x = 0)"
  by (rule wait_notempty.raw_induct[where P = "\<lambda>x y. \<not> (nbuf x \<le> 0 \<and> closed x = 0)"])
     (auto split: if_splits)

lemma wait_notempty_eq:
  "wait_notempty c = (if nbuf c \<le> 0 \<and> closed c = 0 then None else Some c)"
proof (cases "nbuf c \<le> 0 \<and> closed c = 0")
  case False
  then show ?thesis by (subst wait_notempty.simps) auto
next
  case True
  with wait_notempty_Some[of c] show ?thesis by (cases "wait_notempty c") auto
qed

text \<open>The blocking operations with their loops resolved.\<close>

lemma chansend_Some:
  "h a = Some c \<Longrightarrow>
   chansend h (Some a) v =
     (if lock c then Blocks (Mutex a)
      else if closed c \<noteq> 0 then Returns (- 1, h)
      else if nbuf c \<ge> bufsize c then Blocks (NotFull a)
      else (case put_elem c v of
              None \<Rightarrow> Undefined
            | Some c2 \<Rightarrow> Returns (1, h(a \<mapsto> c2\<lparr>nbuf := nbuf c2 + 1\<rparr>))))"
  by (simp add: chansend_def wait_notfull_eq)

lemma chanrecv_Some:
  "h a = Some c \<Longrightarrow>
   chanrecv h (Some a) v =
     (if lock c then Blocks (Mutex a)
      else if nbuf c \<le> 0 then (if closed c = 0 then Blocks (NotEmpty a) else Returns (- 1, h, v))
      else (case get_elem c v of
              None \<Rightarrow> Undefined
            | Some v' \<Rightarrow>
                if bufsize c = 0 then Undefined
                else Returns (1, h(a \<mapsto> c\<lparr>off := (off c + 1) smod bufsize c,
                                          nbuf := nbuf c - 1\<rparr>), v')))"
  by (simp add: chanrecv_def wait_notempty_eq)

lemma chansend_ok:
  assumes "h a = Some c" "chan_wf c" "\<not> lock c" "closed c = 0" "nbuf c < bufsize c"
    "elemsize c \<le> int (length v)" "off c + nbuf c < 2147483648"
  shows "\<exists>c'. chansend h (Some a) v = Returns (1, h(a \<mapsto> c')) \<and> chan_wf c' \<and>
           contents c' = contents c @ [take (nat (elemsize c)) v] \<and>
           elemsize c' = elemsize c \<and> bufsize c' = bufsize c \<and> nbuf c' = nbuf c + 1 \<and>
           off c' = off c \<and> lock c' = lock c \<and> closed c' = closed c"
proof -
  from put_elem_ok[OF assms(2,5,6,7)] obtain b' where
    p: "put_elem c v = Some (c\<lparr>buf := Some b'\<rparr>)" and
    w: "chan_wf (c\<lparr>buf := Some b', nbuf := nbuf c + 1\<rparr>)" and
    ct: "contents (c\<lparr>buf := Some b', nbuf := nbuf c + 1\<rparr>) =
           contents c @ [take (nat (elemsize c)) v]"
    by blast
  have "chansend h (Some a) v = Returns (1, h(a \<mapsto> c\<lparr>buf := Some b', nbuf := nbuf c + 1\<rparr>))"
    using assms p by (simp add: chansend_Some)
  with w ct show ?thesis by (intro exI[of _ "c\<lparr>buf := Some b', nbuf := nbuf c + 1\<rparr>"]) simp
qed

lemma channbsend_ok:
  assumes "h a = Some c" "chan_wf c" "\<not> lock c" "closed c = 0" "nbuf c < bufsize c"
    "elemsize c \<le> int (length v)" "off c + nbuf c < 2147483648"
  shows "\<exists>c'. channbsend h (Some a) v = Returns (1, h(a \<mapsto> c')) \<and> chan_wf c' \<and>
           contents c' = contents c @ [take (nat (elemsize c)) v] \<and>
           elemsize c' = elemsize c \<and> bufsize c' = bufsize c \<and> nbuf c' = nbuf c + 1 \<and>
           off c' = off c \<and> lock c' = lock c \<and> closed c' = closed c"
proof -
  from put_elem_ok[OF assms(2,5,6,7)] obtain b' where
    p: "put_elem c v = Some (c\<lparr>buf := Some b'\<rparr>)" and
    w: "chan_wf (c\<lparr>buf := Some b', nbuf := nbuf c + 1\<rparr>)" and
    ct: "contents (c\<lparr>buf := Some b', nbuf := nbuf c + 1\<rparr>) =
           contents c @ [take (nat (elemsize c)) v]"
    by blast
  have "channbsend h (Some a) v = Returns (1, h(a \<mapsto> c\<lparr>buf := Some b', nbuf := nbuf c + 1\<rparr>))"
    using assms p by (simp add: channbsend_def)
  with w ct show ?thesis by (intro exI[of _ "c\<lparr>buf := Some b', nbuf := nbuf c + 1\<rparr>"]) simp
qed

lemma chanrecv_ok:
  assumes "h a = Some c" "chan_wf c" "\<not> lock c" "0 < nbuf c" "elemsize c \<le> int (length v)"
  shows "\<exists>c'. chanrecv h (Some a) v =
             Returns (1, h(a \<mapsto> c'), hd (contents c) @ drop (nat (elemsize c)) v) \<and>
           chan_wf c' \<and> contents c' = tl (contents c) \<and>
           elemsize c' = elemsize c \<and> bufsize c' = bufsize c \<and> nbuf c' = nbuf c - 1 \<and>
           lock c' = lock c \<and> closed c' = closed c \<and> off c' = (off c + 1) mod bufsize c"
proof -
  let ?c' = "c\<lparr>off := (off c + 1) smod bufsize c, nbuf := nbuf c - 1\<rparr>"
  from get_elem_ok[OF assms(2,4,5)] have
    g: "get_elem c v = Some (hd (contents c) @ drop (nat (elemsize c)) v)" and
    b: "bufsize c \<noteq> 0" and w: "chan_wf ?c'" and ct: "contents ?c' = tl (contents c)"
    by simp_all
  have "chanrecv h (Some a) v =
          Returns (1, h(a \<mapsto> ?c'), hd (contents c) @ drop (nat (elemsize c)) v)"
    using assms g b by (simp add: chanrecv_Some)
  moreover have "(off c + 1) smod bufsize c = (off c + 1) mod bufsize c"
    using assms(2,4) by (intro smod_nonneg) (auto simp: chan_wf_def split: if_splits)
  ultimately show ?thesis using w ct by (intro exI[of _ ?c']) simp
qed

lemma channbrecv_ok:
  assumes "h a = Some c" "chan_wf c" "\<not> lock c" "0 < nbuf c" "elemsize c \<le> int (length v)"
  shows "\<exists>c'. channbrecv h (Some a) v =
             Returns (1, h(a \<mapsto> c'), hd (contents c) @ drop (nat (elemsize c)) v) \<and>
           chan_wf c' \<and> contents c' = tl (contents c) \<and>
           elemsize c' = elemsize c \<and> bufsize c' = bufsize c \<and> nbuf c' = nbuf c - 1 \<and>
           lock c' = lock c \<and> closed c' = closed c"
proof -
  let ?c' = "c\<lparr>off := (off c + 1) smod bufsize c, nbuf := nbuf c - 1\<rparr>"
  from get_elem_ok[OF assms(2,4,5)] have
    g: "get_elem c v = Some (hd (contents c) @ drop (nat (elemsize c)) v)" and
    b: "bufsize c \<noteq> 0" and w: "chan_wf ?c'" and ct: "contents ?c' = tl (contents c)"
    by simp_all
  have "channbrecv h (Some a) v =
          Returns (1, h(a \<mapsto> ?c'), hd (contents c) @ drop (nat (elemsize c)) v)"
    using assms g b by (simp add: channbrecv_def)
  with w ct show ?thesis by (intro exI[of _ ?c']) simp
qed


lemma send_all_ok:
  assumes "h a = Some c" "chan_wf c" "\<not> lock c" "closed c = 0"
    "nbuf c + int (length vs) \<le> bufsize c" "\<forall>v\<in>set vs. int (length v) = elemsize c"
    "off c + nbuf c + int (length vs) \<le> 2147483648"
  shows "\<exists>c'. send_all h (Some a) vs = Returns (replicate (length vs) 1, h(a \<mapsto> c')) \<and>
           chan_wf c' \<and> contents c' = contents c @ vs \<and>
           elemsize c' = elemsize c \<and> bufsize c' = bufsize c \<and>
           nbuf c' = nbuf c + int (length vs) \<and> \<not> lock c' \<and> closed c' = closed c"
  using assms
proof (induction vs arbitrary: h c)
  case Nil
  then show ?case by (intro exI[of _ c]) (simp add: fun_upd_idem)
next
  case (Cons v vs)
  from Cons.prems have lt: "nbuf c < bufsize c" and lv: "elemsize c \<le> int (length v)"
    and tv: "take (nat (elemsize c)) v = v" and sb: "off c + nbuf c < 2147483648"
    by auto
  from chansend_ok[of h a c v, OF Cons.prems(1-4) lt lv sb] tv obtain c1 where
    s: "chansend h (Some a) v = Returns (1, h(a \<mapsto> c1))" and w1: "chan_wf c1" and
    ct1: "contents c1 = contents c @ [v]" and e1: "elemsize c1 = elemsize c" and
    b1: "bufsize c1 = bufsize c" and n1: "nbuf c1 = nbuf c + 1" and
    l1: "lock c1 = lock c" and cl1: "closed c1 = closed c" and o1: "off c1 = off c"
    by auto
  have "\<exists>c'. send_all (h(a \<mapsto> c1)) (Some a) vs =
               Returns (replicate (length vs) 1, (h(a \<mapsto> c1))(a \<mapsto> c')) \<and>
           chan_wf c' \<and> contents c' = contents c1 @ vs \<and>
           elemsize c' = elemsize c1 \<and> bufsize c' = bufsize c1 \<and>
           nbuf c' = nbuf c1 + int (length vs) \<and> \<not> lock c' \<and> closed c' = closed c1"
    using Cons.prems w1 e1 b1 n1 l1 cl1 o1 by (intro Cons.IH) auto
  then obtain c' where
    r: "send_all (h(a \<mapsto> c1)) (Some a) vs = Returns (replicate (length vs) 1, h(a \<mapsto> c'))" and
    rest: "chan_wf c'" "contents c' = contents c1 @ vs" "elemsize c' = elemsize c1"
      "bufsize c' = bufsize c1" "nbuf c' = nbuf c1 + int (length vs)" "\<not> lock c'"
      "closed c' = closed c1"
    by auto
  have "send_all h (Some a) (v # vs) = Returns (replicate (length (v # vs)) 1, h(a \<mapsto> c'))"
    by (simp add: s r)
  then show ?case
    using rest ct1 e1 b1 n1 cl1
    by (intro exI[of _ c'] conjI) (simp_all add: fun_upd_def del: send_all.simps)
qed

lemma recv_all_ok:
  assumes "h a = Some c" "chan_wf c" "\<not> lock c" "int (length ds) \<le> nbuf c"
    "\<forall>d\<in>set ds. int (length d) = elemsize c"
  shows "\<exists>c'. recv_all h (Some a) ds =
             Returns (map (\<lambda>x. (1, x)) (take (length ds) (contents c)), h(a \<mapsto> c')) \<and>
           chan_wf c' \<and> contents c' = drop (length ds) (contents c) \<and>
           elemsize c' = elemsize c \<and> bufsize c' = bufsize c \<and>
           nbuf c' = nbuf c - int (length ds) \<and> \<not> lock c' \<and> closed c' = closed c"
  using assms
proof (induction ds arbitrary: h c)
  case Nil
  then show ?case by (intro exI[of _ c]) (simp add: fun_upd_idem)
next
  case (Cons d ds)
  from Cons.prems have pos: "0 < nbuf c" and ld: "elemsize c \<le> int (length d)"
    and dd: "drop (nat (elemsize c)) d = []"
    by auto
  from length_contents[OF Cons.prems(2)] pos obtain x xs where xs: "contents c = x # xs"
    by (cases "contents c") auto
  from chanrecv_ok[of h a c d, OF Cons.prems(1-3) pos ld] dd xs obtain c1 where
    s: "chanrecv h (Some a) d = Returns (1, h(a \<mapsto> c1), x)" and w1: "chan_wf c1" and
    ct1: "contents c1 = xs" and e1: "elemsize c1 = elemsize c" and
    b1: "bufsize c1 = bufsize c" and n1: "nbuf c1 = nbuf c - 1" and
    l1: "lock c1 = lock c" and cl1: "closed c1 = closed c"
    by auto
  have "\<exists>c'. recv_all (h(a \<mapsto> c1)) (Some a) ds =
               Returns (map (\<lambda>x. (1, x)) (take (length ds) (contents c1)),
                        (h(a \<mapsto> c1))(a \<mapsto> c')) \<and>
           chan_wf c' \<and> contents c' = drop (length ds) (contents c1) \<and>
           elemsize c' = elemsize c1 \<and> bufsize c' = bufsize c1 \<and>
           nbuf c' = nbuf c1 - int (length ds) \<and> \<not> lock c' \<and> closed c' = closed c1"
    using Cons.prems w1 e1 b1 n1 l1 cl1 by (intro Cons.IH) auto
  then obtain c' where
    r: "recv_all (h(a \<mapsto> c1)) (Some a) ds =
          Returns (map (\<lambda>x. (1, x)) (take (length ds) xs), h(a \<mapsto> c'))" and
    rest: "chan_wf c'" "contents c' = drop (length ds) xs" "elemsize c' = elemsize c1"
      "bufsize c' = bufsize c1" "nbuf c' = nbuf c1 - int (length ds)" "\<not> lock c'"
      "closed c' = closed c1"
    using ct1 by auto
  have "recv_all h (Some a) (d # ds) =
          Returns (map (\<lambda>x. (1, x)) (take (length (d # ds)) (contents c)), h(a \<mapsto> c'))"
    by (simp add: s r xs)
  then show ?case
    using rest xs e1 b1 n1 cl1
    by (intro exI[of _ c'] conjI) (simp_all add: fun_upd_def del: recv_all.simps)
qed

subsection \<open>Receiving from a channel that holds its values\<close>

text \<open>
  A well-formed channel holds its values, and a receive on a channel that holds its values
  yields the front value and leaves a channel that holds the remaining ones.
\<close>

lemma chan_wf_holds: "chan_wf c \<Longrightarrow> chan_holds c"
proof -
  assume w: "chan_wf c"
  show ?thesis
  proof (cases "0 < nbuf c")
    case False
    with w show ?thesis by (simp add: chan_wf_def chan_holds_def)
  next
    case True
    with w have bs: "0 < bufsize c" and es: "0 \<le> elemsize c"
      and sz: "elemsize c * bufsize c < 2147483648" and o: "0 \<le> off c" "off c < bufsize c"
      by (auto simp: chan_wf_def sizes_ok_def split: if_splits)
    from w bs obtain b where b: "buf c = Some b" and lb: "int (length b) = elemsize c * bufsize c"
      by (auto simp: chan_wf_def split: option.splits if_splits)
    have "((off c + int i) mod bufsize c + 1) * elemsize c \<le> int (length b)" for i
    proof -
      have "(off c + int i) mod bufsize c < bufsize c" using bs by simp
      then have "(off c + int i) mod bufsize c + 1 \<le> bufsize c" by linarith
      then have "((off c + int i) mod bufsize c + 1) * elemsize c \<le> bufsize c * elemsize c"
        using es by (rule mult_right_mono)
      then show ?thesis using lb by (simp add: mult.commute)
    qed
    with True es o b lb sz show ?thesis by (simp add: chan_holds_def)
  qed
qed

lemma length_contents_holds: "chan_holds c \<Longrightarrow> length (contents c) = nat (nbuf c)"
  by (cases "0 < nbuf c") (auto simp: chan_holds_def contents_def split: option.splits)

lemma get_elem_holds:
  assumes "chan_holds c" "0 < nbuf c" "elemsize c \<le> int (length v)"
  shows "get_elem c v = Some (hd (contents c) @ drop (nat (elemsize c)) v) \<and>
         bufsize c \<noteq> 0 \<and>
         chan_holds (c\<lparr>off := (off c + 1) smod bufsize c, nbuf := nbuf c - 1\<rparr>) \<and>
         contents (c\<lparr>off := (off c + 1) smod bufsize c, nbuf := nbuf c - 1\<rparr>) =
           tl (contents c)"
proof -
  from assms(1,2) have o0: "0 \<le> off c" and ob: "off c < bufsize c" and es: "0 \<le> elemsize c"
    by (auto simp: chan_holds_def)
  then have bs: "0 < bufsize c" by simp
  from assms(1,2) obtain b where b: "buf c = Some b" and lb: "int (length b) < 2147483648"
    and sl0: "\<forall>i\<in>set [0..<nat (nbuf c)].
               ((off c + int i) mod bufsize c + 1) * elemsize c \<le> int (length b)"
    by (auto simp: chan_holds_def split: option.splits)
  have sl: "((off c + int i) mod bufsize c + 1) * elemsize c \<le> int (length b)"
    if "i < nat (nbuf c)" for i
    using sl0 that by simp
  obtain m where m: "nat (nbuf c) = Suc m" using assms(2) by (cases "nat (nbuf c)") auto
  then have m': "nat (nbuf c - 1) = m" by simp
  have up: "[0..<Suc m] = 0 # map Suc [0..<m]" by (simp add: upt_conv_Cons map_Suc_upt del: upt_Suc)
  have hd: "hd (contents c) = slot b (elemsize c) (off c)"
    using o0 ob by (simp add: contents_def b m up del: upt_Suc)
  have "((off c + int 0) mod bufsize c + 1) * elemsize c \<le> int (length b)"
    using m by (intro sl) simp
  with o0 ob have s0: "off c * elemsize c + elemsize c \<le> int (length b)"
    by (simp add: algebra_simps)
  have oe: "0 \<le> off c * elemsize c" using o0 es by simp
  have orr: "wrap32 (off c * elemsize c) = off c * elemsize c"
    using oe s0 es lb by (intro wrap32_id) auto
  have kb: "nat (off c * elemsize c) + nat (elemsize c) \<le> length b"
    using oe es s0 by linarith
  have ev: "nat (elemsize c) \<le> length v" using assms(3) by linarith
  have "memcpy v 0 b (nat (off c * elemsize c)) (elemsize c) =
          Some (slot b (elemsize c) (off c) @ drop (nat (elemsize c)) v)"
    using kb ev es by (simp add: memcpy_def slot_def)
  then have g: "get_elem c v = Some (hd (contents c) @ drop (nat (elemsize c)) v)"
    using oe by (simp add: get_elem_def b hd Let_def orr)
  have o': "(off c + 1) smod bufsize c = (off c + 1) mod bufsize c"
    using o0 bs by (simp add: smod_nonneg)
  have sh: "((off c + 1) mod bufsize c + int i) mod bufsize c = (off c + int (Suc i)) mod bufsize c" for i
  proof -
    have "((off c + 1) mod bufsize c + int i) mod bufsize c = ((off c + 1) + int i) mod bufsize c"
      by (rule mod_add_left_eq)
    then show ?thesis by (simp add: algebra_simps)
  qed
  have sl': "((off c + int (Suc i)) mod bufsize c + 1) * elemsize c \<le> int (length b)"
    if "i < m" for i
    using m that by (intro sl) simp
  have w: "chan_holds (c\<lparr>off := (off c + 1) smod bufsize c, nbuf := nbuf c - 1\<rparr>)"
    using assms(2) bs es lb sl' by (simp add: chan_holds_def o' b m' sh del: of_nat_Suc)
  have t: "contents (c\<lparr>off := (off c + 1) smod bufsize c, nbuf := nbuf c - 1\<rparr>) = tl (contents c)"
    by (simp add: contents_def b m m' up o' sh del: upt_Suc)
  from g w t bs show ?thesis by simp
qed

lemma chanrecv_holds:
  assumes "h a = Some c" "chan_holds c" "\<not> lock c" "0 < nbuf c" "elemsize c \<le> int (length v)"
  shows "\<exists>c'. chanrecv h (Some a) v =
             Returns (1, h(a \<mapsto> c'), hd (contents c) @ drop (nat (elemsize c)) v) \<and>
           chan_holds c' \<and> contents c' = tl (contents c) \<and>
           elemsize c' = elemsize c \<and> bufsize c' = bufsize c \<and> nbuf c' = nbuf c - 1 \<and>
           lock c' = lock c \<and> closed c' = closed c \<and> off c' = (off c + 1) mod bufsize c"
proof -
  let ?c' = "c\<lparr>off := (off c + 1) smod bufsize c, nbuf := nbuf c - 1\<rparr>"
  from get_elem_holds[OF assms(2,4,5)] have
    g: "get_elem c v = Some (hd (contents c) @ drop (nat (elemsize c)) v)" and
    b: "bufsize c \<noteq> 0" and w: "chan_holds ?c'" and ct: "contents ?c' = tl (contents c)"
    by simp_all
  have "chanrecv h (Some a) v =
          Returns (1, h(a \<mapsto> ?c'), hd (contents c) @ drop (nat (elemsize c)) v)"
    using assms g b by (simp add: chanrecv_Some)
  moreover have "(off c + 1) smod bufsize c = (off c + 1) mod bufsize c"
    using assms(2,4) by (intro smod_nonneg) (auto simp: chan_holds_def)
  ultimately show ?thesis using w ct by (intro exI[of _ ?c']) simp
qed

lemma channbrecv_holds:
  assumes "h a = Some c" "chan_holds c" "\<not> lock c" "0 < nbuf c" "elemsize c \<le> int (length v)"
  shows "\<exists>c'. channbrecv h (Some a) v =
             Returns (1, h(a \<mapsto> c'), hd (contents c) @ drop (nat (elemsize c)) v) \<and>
           chan_holds c' \<and> contents c' = tl (contents c) \<and>
           elemsize c' = elemsize c \<and> bufsize c' = bufsize c \<and> nbuf c' = nbuf c - 1 \<and>
           lock c' = lock c \<and> closed c' = closed c"
proof -
  let ?c' = "c\<lparr>off := (off c + 1) smod bufsize c, nbuf := nbuf c - 1\<rparr>"
  from get_elem_holds[OF assms(2,4,5)] have
    g: "get_elem c v = Some (hd (contents c) @ drop (nat (elemsize c)) v)" and
    b: "bufsize c \<noteq> 0" and w: "chan_holds ?c'" and ct: "contents ?c' = tl (contents c)"
    by simp_all
  have "channbrecv h (Some a) v =
          Returns (1, h(a \<mapsto> ?c'), hd (contents c) @ drop (nat (elemsize c)) v)"
    using assms g b by (simp add: channbrecv_def)
  with w ct show ?thesis by (intro exI[of _ ?c']) simp
qed

lemma recv_all_holds:
  assumes "h a = Some c" "chan_holds c" "\<not> lock c" "int (length ds) \<le> nbuf c"
    "\<forall>d\<in>set ds. int (length d) = elemsize c"
  shows "\<exists>c'. recv_all h (Some a) ds =
             Returns (map (\<lambda>x. (1, x)) (take (length ds) (contents c)), h(a \<mapsto> c')) \<and>
           chan_holds c' \<and> contents c' = drop (length ds) (contents c) \<and>
           elemsize c' = elemsize c \<and> bufsize c' = bufsize c \<and>
           nbuf c' = nbuf c - int (length ds) \<and> \<not> lock c' \<and> closed c' = closed c"
  using assms
proof (induction ds arbitrary: h c)
  case Nil
  then show ?case by (intro exI[of _ c]) (simp add: fun_upd_idem)
next
  case (Cons d ds)
  from Cons.prems have pos: "0 < nbuf c" and ld: "elemsize c \<le> int (length d)"
    and dd: "drop (nat (elemsize c)) d = []"
    by auto
  from length_contents_holds[OF Cons.prems(2)] pos obtain x xs where xs: "contents c = x # xs"
    by (cases "contents c") auto
  from chanrecv_holds[of h a c d, OF Cons.prems(1-3) pos ld] dd xs obtain c1 where
    s: "chanrecv h (Some a) d = Returns (1, h(a \<mapsto> c1), x)" and w1: "chan_holds c1" and
    ct1: "contents c1 = xs" and e1: "elemsize c1 = elemsize c" and
    b1: "bufsize c1 = bufsize c" and n1: "nbuf c1 = nbuf c - 1" and
    l1: "lock c1 = lock c" and cl1: "closed c1 = closed c"
    by auto
  have "\<exists>c'. recv_all (h(a \<mapsto> c1)) (Some a) ds =
               Returns (map (\<lambda>x. (1, x)) (take (length ds) (contents c1)),
                        (h(a \<mapsto> c1))(a \<mapsto> c')) \<and>
           chan_holds c' \<and> contents c' = drop (length ds) (contents c1) \<and>
           elemsize c' = elemsize c1 \<and> bufsize c' = bufsize c1 \<and>
           nbuf c' = nbuf c1 - int (length ds) \<and> \<not> lock c' \<and> closed c' = closed c1"
    using Cons.prems w1 e1 b1 n1 l1 cl1 by (intro Cons.IH) auto
  then obtain c' where
    r: "recv_all (h(a \<mapsto> c1)) (Some a) ds =
          Returns (map (\<lambda>x. (1, x)) (take (length ds) xs), h(a \<mapsto> c'))" and
    rest: "chan_holds c'" "contents c' = drop (length ds) xs" "elemsize c' = elemsize c1"
      "bufsize c' = bufsize c1" "nbuf c' = nbuf c1 - int (length ds)" "\<not> lock c'"
      "closed c' = closed c1"
    using ct1 by auto
  have "recv_all h (Some a) (d # ds) =
          Returns (map (\<lambda>x. (1, x)) (take (length (d # ds)) (contents c)), h(a \<mapsto> c'))"
    by (simp add: s r xs)
  then show ?case
    using rest xs e1 b1 n1 cl1
    by (intro exI[of _ c'] conjI) (simp_all add: fun_upd_def del: recv_all.simps)
qed

text \<open>
  With a \<^verbatim>\<open>malloc\<close> as described, every channel created with a capacity \<open>bs \<le> 0\<close>, or
  with sizes for which nothing leaves the range of \<^verbatim>\<open>int\<close>, is well formed, empty and open.
\<close>

lemma chancreate_wf:
  assumes "chancreate mc mb h0 es bs = (Some a, h1)" "malloc_ok mb"
    "0 < bs \<longrightarrow> sizes_ok es bs"
  shows "\<exists>c. h1 a = Some c \<and> chan_wf c \<and> nbuf c = 0 \<and> closed c = 0 \<and> \<not> lock c \<and>
           elemsize c = es \<and> bufsize c = bs"
proof (cases "0 < bs")
  case False
  with assms(1) have
    "h1 = h0(a \<mapsto> \<lparr>buf = None, elemsize = es, bufsize = bs, nbuf = 0, off = 0,
                     lock = False, closed = 0\<rparr>)"
    by (auto simp: chancreate_def Let_def split: option.splits)
  with False show ?thesis by (simp add: chan_wf_def)
next
  case True
  with assms(3) have so: "sizes_ok es bs" by simp
  then have "0 \<le> es * bs" "es * bs < 2147483648" using True by (auto simp: sizes_ok_def)
  then have w: "wrap32 (es * bs) = es * bs" by (intro wrap32_id) auto
  from True assms(1) w obtain b where b: "mb (es * bs) = Some b" and
    h1: "h1 = h0(a \<mapsto> \<lparr>buf = Some b, elemsize = es, bufsize = bs, nbuf = 0, off = 0,
                        lock = False, closed = 0\<rparr>)"
    by (auto simp: chancreate_def Let_def split: option.splits)
  from assms(2) b have l: "int (length b) = es * bs"
    by (auto simp: malloc_ok_def)
  with True so h1 show ?thesis by (simp add: chan_wf_def)
qed

text \<open>
  Every call with a value or slot of at least the element size is defined on a
  well-formed channel of capacity at most \<open>2^30\<close> (where \<^verbatim>\<open>off + nbuf\<close> cannot wrap) and
  leaves it well formed, and so does every history of such calls.
\<close>

lemma apply_op_wf:
  assumes "h a = Some c" "chan_wf c" "op_fits (elemsize c) x" "bufsize c \<le> 1073741824"
  shows "\<exists>h'. (apply_op h (Some a) x = Returns h' \<or>
               (\<exists>w. apply_op h (Some a) x = Blocks w) \<and> h' = h) \<and>
           (\<exists>c'. h' a = Some c' \<and> chan_wf c' \<and> elemsize c' = elemsize c \<and>
                 bufsize c' = bufsize c)"
proof (cases x)
  case (Send v)
  show ?thesis
  proof (cases "\<not> lock c \<and> closed c = 0 \<and> nbuf c < bufsize c")
    case True
    with assms(2,4) have "off c + nbuf c < 2147483648"
      by (auto simp: chan_wf_def split: if_splits)
    with True chansend_ok[of h a c v] assms Send show ?thesis by auto
  next
    case False
    with assms Send show ?thesis by (auto simp: chansend_Some)
  qed
next
  case (NbSend v)
  show ?thesis
  proof (cases "\<not> lock c \<and> closed c = 0 \<and> nbuf c < bufsize c")
    case True
    with assms(2,4) have "off c + nbuf c < 2147483648"
      by (auto simp: chan_wf_def split: if_splits)
    with True channbsend_ok[of h a c v] assms NbSend show ?thesis by auto
  next
    case False
    with assms NbSend show ?thesis by (auto simp: channbsend_def)
  qed
next
  case (Recv v)
  show ?thesis
  proof (cases "\<not> lock c \<and> 0 < nbuf c")
    case True
    with chanrecv_ok[of h a c v] assms Recv show ?thesis by auto
  next
    case False
    with assms Recv show ?thesis by (auto simp: chanrecv_Some)
  qed
next
  case (NbRecv v)
  show ?thesis
  proof (cases "\<not> lock c \<and> 0 < nbuf c")
    case True
    with channbrecv_ok[of h a c v] assms NbRecv show ?thesis by auto
  next
    case False
    with assms NbRecv show ?thesis by (auto simp: channbrecv_def)
  qed
next
  case Close
  have "chan_wf (c\<lparr>closed := 1\<rparr>)"
    using assms(2) by (auto simp: chan_wf_def sizes_ok_def split: option.splits if_splits)
  with assms Close show ?thesis by (auto simp: chanclose_def)
qed

lemma run_wf:
  assumes "h a = Some c" "chan_wf c" "\<forall>x\<in>set xs. op_fits (elemsize c) x"
    "bufsize c \<le> 1073741824"
  shows "\<exists>h' c'. run h (map (Pair (Some a)) xs) = Returns h' \<and> h' a = Some c' \<and> chan_wf c' \<and>
           elemsize c' = elemsize c \<and> bufsize c' = bufsize c"
  using assms
proof (induction xs arbitrary: h c)
  case Nil
  then show ?case by simp
next
  case (Cons x xs)
  from Cons.prems(3) have fx: "op_fits (elemsize c) x" by simp
  from apply_op_wf[of h a c x, OF Cons.prems(1,2) fx Cons.prems(4)] obtain h1 c1 where
    st: "apply_op h (Some a) x = Returns h1 \<or> (\<exists>w. apply_op h (Some a) x = Blocks w) \<and> h1 = h"
    and c1: "h1 a = Some c1" "chan_wf c1" and e1: "elemsize c1 = elemsize c"
    and b1: "bufsize c1 = bufsize c"
    by blast
  from st have r: "run h (map (Pair (Some a)) (x # xs)) = run h1 (map (Pair (Some a)) xs)"
    by auto
  from Cons.prems(3) e1 have f1: "\<forall>x\<in>set xs. op_fits (elemsize c1) x" by simp
  from Cons.prems(4) b1 have "bufsize c1 \<le> 1073741824" by simp
  from Cons.IH[of h1 c1, OF c1 f1 this] r e1 b1 show ?case by simp
qed

text \<open>
  Rounds of one send and one receive on an empty channel move the offset around the
  ring: after \<open>n\<close> rounds it is \<open>(off + n) mod bufsize\<close>, for every capacity that an
  \<^verbatim>\<open>int\<close> holds.  So every offset below the capacity is reached from a new channel.
\<close>

lemma run_append:
  "run h (xs @ ys) =
     (case run h xs of Returns h' \<Rightarrow> run h' ys | Blocks w \<Rightarrow> Blocks w | Undefined \<Rightarrow> Undefined)"
  by (induction xs arbitrary: h) (auto split: outcome.splits)

lemma send_recv_round:
  assumes "h a = Some c" "chan_wf c" "\<not> lock c" "closed c = 0" "nbuf c = 0"
    "0 < bufsize c" "bufsize c \<le> 2147483647"
    "int (length v) = elemsize c" "int (length d) = elemsize c"
  shows "\<exists>c'. run h [(Some a, Send v), (Some a, Recv d)] = Returns (h(a \<mapsto> c')) \<and>
           chan_wf c' \<and> \<not> lock c' \<and> closed c' = 0 \<and> nbuf c' = 0 \<and>
           off c' = (off c + 1) mod bufsize c \<and>
           elemsize c' = elemsize c \<and> bufsize c' = bufsize c"
proof -
  from assms(2,6,7) have sb: "off c + nbuf c < 2147483648"
    using assms(5) by (auto simp: chan_wf_def split: if_splits)
  have lt: "nbuf c < bufsize c" and lv: "elemsize c \<le> int (length v)"
    using assms(5,6,8) by simp_all
  from chansend_ok[of h a c v, OF assms(1-4) lt lv sb] obtain c1 where
    s: "chansend h (Some a) v = Returns (1, h(a \<mapsto> c1))" and w1: "chan_wf c1" and
    e1: "elemsize c1 = elemsize c" and b1: "bufsize c1 = bufsize c" and
    n1: "nbuf c1 = nbuf c + 1" and o1: "off c1 = off c" and
    l1: "lock c1 = lock c" and cl1: "closed c1 = closed c"
    by auto
  have h1: "(h(a \<mapsto> c1)) a = Some c1" by simp
  have p1: "\<not> lock c1" "0 < nbuf c1" "elemsize c1 \<le> int (length d)"
    using l1 assms(3,5,9) n1 e1 by simp_all
  from chanrecv_ok[of "h(a \<mapsto> c1)" a c1 d, OF h1 w1 p1] obtain c2 where
    r: "chanrecv (h(a \<mapsto> c1)) (Some a) d =
          Returns (1, h(a \<mapsto> c2), hd (contents c1) @ drop (nat (elemsize c1)) d)" and
    rest: "chan_wf c2" "elemsize c2 = elemsize c1" "bufsize c2 = bufsize c1"
      "nbuf c2 = nbuf c1 - 1" "lock c2 = lock c1" "closed c2 = closed c1"
      "off c2 = (off c1 + 1) mod bufsize c1"
    by auto
  have "run h [(Some a, Send v), (Some a, Recv d)] = Returns (h(a \<mapsto> c2))"
    by (simp add: s r)
  with rest e1 b1 n1 o1 l1 cl1 assms(3,4,5) show ?thesis
    by (intro exI[of _ c2]) simp
qed

lemma rounds_advance_off:
  assumes "h a = Some c" "chan_wf c" "\<not> lock c" "closed c = 0" "nbuf c = 0"
    "0 < bufsize c" "bufsize c \<le> 2147483647"
    "int (length v) = elemsize c" "int (length d) = elemsize c"
  shows "\<exists>h' c'. run h (concat (replicate n [(Some a, Send v), (Some a, Recv d)])) = Returns h' \<and>
           h' a = Some c' \<and> chan_wf c' \<and> \<not> lock c' \<and> closed c' = 0 \<and> nbuf c' = 0 \<and>
           off c' = (off c + int n) mod bufsize c \<and>
           elemsize c' = elemsize c \<and> bufsize c' = bufsize c"
proof (induction n)
  case 0
  from assms(2,6) have "off c mod bufsize c = off c"
    by (auto simp: chan_wf_def split: if_splits)
  with assms show ?case by (intro exI[of _ h] exI[of _ c]) simp
next
  case (Suc n)
  then obtain h1 c1 where
    r1: "run h (concat (replicate n [(Some a, Send v), (Some a, Recv d)])) = Returns h1" and
    c1: "h1 a = Some c1" "chan_wf c1" "\<not> lock c1" "closed c1 = 0" "nbuf c1 = 0" and
    o1: "off c1 = (off c + int n) mod bufsize c" and
    e1: "elemsize c1 = elemsize c" and b1: "bufsize c1 = bufsize c"
    by blast
  have p: "0 < bufsize c1" "bufsize c1 \<le> 2147483647"
    "int (length v) = elemsize c1" "int (length d) = elemsize c1"
    using assms(6-9) e1 b1 by simp_all
  from send_recv_round[of h1 a c1 v d, OF c1 p] obtain c2 where
    r2: "run h1 [(Some a, Send v), (Some a, Recv d)] = Returns (h1(a \<mapsto> c2))" and
    c2: "chan_wf c2" "\<not> lock c2" "closed c2 = 0" "nbuf c2 = 0"
      "off c2 = (off c1 + 1) mod bufsize c1" "elemsize c2 = elemsize c1"
      "bufsize c2 = bufsize c1"
    by blast
  have cc: "concat (replicate (Suc n) [(Some a, Send v), (Some a, Recv d)]) =
            concat (replicate n [(Some a, Send v), (Some a, Recv d)]) @
            [(Some a, Send v), (Some a, Recv d)]"
  proof -
    have "replicate (Suc n) [(Some a, Send v), (Some a, Recv d)] =
          replicate n [(Some a, Send v), (Some a, Recv d)] @ [[(Some a, Send v), (Some a, Recv d)]]"
      by (simp add: replicate_append_same)
    then show ?thesis by (simp only: concat_append concat.simps append_Nil2)
  qed
  have r: "run h (concat (replicate (Suc n) [(Some a, Send v), (Some a, Recv d)])) =
           Returns (h1(a \<mapsto> c2))"
    unfolding cc by (simp add: run_append r1 r2 del: run.simps)
  have "((off c + int n) mod bufsize c + 1) mod bufsize c = (off c + int (Suc n)) mod bufsize c"
  proof -
    have "((off c + int n) mod bufsize c + 1) mod bufsize c = ((off c + int n) + 1) mod bufsize c"
      by (rule mod_add_left_eq)
    then show ?thesis by (simp add: algebra_simps)
  qed
  with c2 o1 e1 b1 have o2: "off c2 = (off c + int (Suc n)) mod bufsize c" by simp
  have f: "(h1(a \<mapsto> c2)) a = Some c2" by simp
  have e2: "elemsize c2 = elemsize c" "bufsize c2 = bufsize c" using c2 e1 b1 by simp_all
  from r f c2(1-4) o2 e2 show ?case by blast
qed

section \<open>Channels as created and as left by the operations\<close>

text \<open>
  With a \<^verbatim>\<open>malloc\<close> as described, for any element size and capacity, the channel that
  \<^verbatim>\<open>chancreate\<close> returns satisfies \<open>chan_reach\<close>; every call that returns keeps it; and
  a channel that satisfies it holds its values.  A send that would leave it (the position computed from a wrapped
  \<^verbatim>\<open>off + nbuf\<close>, or an element behind the buffer) is undefined and does not return.
\<close>

lemma put_elem_fields:
  "put_elem c v = Some c2 \<Longrightarrow>
   nbuf c2 = nbuf c \<and> bufsize c2 = bufsize c \<and> off c2 = off c \<and> closed c2 = closed c \<and>
   lock c2 = lock c \<and> elemsize c2 = elemsize c"
  by (auto simp: put_elem_def Let_def split: option.splits if_splits)

lemma chan_reach_holds: "chan_reach c \<Longrightarrow> chan_holds c"
proof -
  assume r: "chan_reach c"
  show ?thesis
  proof (cases "0 < nbuf c")
    case False
    with r show ?thesis by (simp add: chan_reach_def chan_holds_def)
  next
    case True
    with r have bs: "0 < bufsize c" and o: "0 \<le> off c" "off c < bufsize c"
      by (auto simp: chan_reach_def split: if_splits)
    from r bs obtain b where b: "buf c = Some b" and lb: "int (length b) < 2147483648"
      by (auto simp: chan_reach_def split: option.splits)
    from r bs b True have es: "0 \<le> elemsize c"
      and M: "min (off c + nbuf c) (bufsize c) * elemsize c \<le> int (length b)"
      by (auto simp: chan_reach_def split: if_splits)
    have "((off c + int i) mod bufsize c + 1) * elemsize c \<le> int (length b)"
      if i: "i < nat (nbuf c)" for i
    proof -
      have "(off c + int i) mod bufsize c < bufsize c" using bs by simp
      moreover have "(off c + int i) mod bufsize c \<le> off c + int i"
        using o by (intro zmod_le_nonneg_dividend) simp
      moreover have "off c + int i < off c + nbuf c" using i by linarith
      ultimately have "(off c + int i) mod bufsize c + 1 \<le> min (off c + nbuf c) (bufsize c)"
        by simp
      then have "((off c + int i) mod bufsize c + 1) * elemsize c \<le>
                 min (off c + nbuf c) (bufsize c) * elemsize c"
        using es by (rule mult_right_mono)
      with M show ?thesis by simp
    qed
    with True es o b lb show ?thesis by (simp add: chan_holds_def)
  qed
qed

lemma wrap32_less: "wrap32 x < 2147483648"
  by (simp add: wrap32_def)

lemma put_elem_reach:
  assumes r: "chan_reach c" and lt: "nbuf c < bufsize c" and p: "put_elem c v = Some c'"
  shows "chan_reach (c'\<lparr>nbuf := nbuf c' + 1\<rparr>)"
proof -
  from r lt have bs: "0 < bufsize c" and n0: "0 \<le> nbuf c" and o0: "0 \<le> off c"
    and ob: "off c < bufsize c"
    by (auto simp: chan_reach_def split: if_splits)
  from r bs obtain b where b: "buf c = Some b" and lb: "int (length b) < 2147483648"
    by (auto simp: chan_reach_def split: option.splits)
  define S where "S = off c + nbuf c"
  define k where "k = wrap32 S smod bufsize c"
  define dst where "dst = wrap32 (k * elemsize c)"
  have S0: "0 \<le> S" using n0 o0 by (simp add: S_def)
  from p b bs obtain b' where d0: "0 \<le> dst"
    and m: "memcpy b (nat dst) v 0 (elemsize c) = Some b'" and c': "c' = c\<lparr>buf := Some b'\<rparr>"
    by (auto simp: put_elem_def Let_def S_def k_def dst_def split: if_splits option.splits)
  from m have es: "0 \<le> elemsize c" and fit: "nat dst + nat (elemsize c) \<le> length b"
    and lb': "length b' = length b"
    by (auto simp: memcpy_def split: if_splits)
  from r bs b es have M: "min S (bufsize c) * elemsize c \<le> int (length b)"
    and W: "0 < elemsize c \<longrightarrow> S \<le> 2147483648"
    by (auto simp: chan_reach_def S_def split: if_splits)
  have goal: "min (S + 1) (bufsize c) * elemsize c \<le> int (length b) \<and>
              (0 < elemsize c \<longrightarrow> S + 1 \<le> 2147483648)"
  proof (cases "elemsize c = 0")
    case True
    then show ?thesis by simp
  next
    case False
    with es have ep: "0 < elemsize c" by simp
    with W have S31: "S \<le> 2147483648" by simp
    have ne: "S \<noteq> 2147483648"
    proof
      assume e: "S = 2147483648"
      have "\<not> S \<le> bufsize c"
      proof
        assume "S \<le> bufsize c"
        then have "min S (bufsize c) = S" by simp
        with M have "S * elemsize c \<le> int (length b)" by simp
        moreover have "S * 1 \<le> S * elemsize c" using ep S0 by (intro mult_left_mono) auto
        ultimately show False using lb e by simp
      qed
      then have bl: "bufsize c < S" by simp
      with M have be: "bufsize c * elemsize c \<le> int (length b)" by (simp add: min_def)
      have b30: "1073741824 < bufsize c" using e ob lt by (simp add: S_def)
      have e1: "elemsize c = 1"
      proof (rule ccontr)
        assume "elemsize c \<noteq> 1"
        with ep have "2 \<le> elemsize c" by simp
        then have "bufsize c * 2 \<le> bufsize c * elemsize c" using bs by (intro mult_left_mono) auto
        with be lb b30 show False by simp
      qed
      have w: "wrap32 S = - 2147483648" using e by (simp add: wrap32_def)
      have "(2147483648 - bufsize c) mod bufsize c = 2147483648 - bufsize c"
        using b30 bl e by (intro mod_pos_pos_trivial) auto
      then have md: "2147483648 mod bufsize c = 2147483648 - bufsize c" by simp
      have "k = - (2147483648 mod bufsize c)"
        unfolding k_def w using bs by (simp add: signed_modulo_int_def)
      with md have "k = bufsize c - 2147483648" by simp
      then have "dst = bufsize c - 2147483648"
        using e1 b30 bl e by (simp add: dst_def wrap32_id)
      with d0 bl e show False by simp
    qed
    with S31 have Slt: "S < 2147483648" by simp
    have wS: "wrap32 S = S" using S0 Slt by (intro wrap32_id) auto
    have kS: "k = S mod bufsize c" unfolding k_def wS using S0 bs by (rule smod_nonneg)
    show ?thesis
    proof (cases "S < bufsize c")
      case True
      then have kk: "k = S" using kS S0 by simp
      from True M have SM: "S * elemsize c \<le> int (length b)" by (simp add: min_def)
      have "0 \<le> S * elemsize c" using S0 es by simp
      with SM lb have ds: "dst = S * elemsize c" unfolding dst_def kk by (intro wrap32_id) auto
      have "int (nat dst) + int (nat (elemsize c)) \<le> int (length b)" using fit by linarith
      with d0 es have "dst + elemsize c \<le> int (length b)" by simp
      then have "(S + 1) * elemsize c \<le> int (length b)"
        unfolding ds by (simp add: algebra_simps)
      moreover have "min (S + 1) (bufsize c) = S + 1" using True by simp
      ultimately show ?thesis using Slt by simp
    next
      case False
      then have "min S (bufsize c) = bufsize c" "min (S + 1) (bufsize c) = bufsize c" by simp_all
      with M Slt show ?thesis by simp
    qed
  qed
  from goal have "min (off c + (nbuf c + 1)) (bufsize c) * elemsize c \<le> int (length b) \<and>
      (0 < elemsize c \<longrightarrow> off c + (nbuf c + 1) \<le> 2147483648)"
    by (simp add: S_def add.assoc)
  with bs b lt n0 o0 ob lb lb' es show ?thesis
    by (simp add: chan_reach_def c')
qed

lemma recv_step_reach:
  assumes r: "chan_reach c" and pos: "0 < nbuf c"
  shows "chan_reach (c\<lparr>off := (off c + 1) smod bufsize c, nbuf := nbuf c - 1\<rparr>)"
proof -
  from r pos have bs: "0 < bufsize c" and o0: "0 \<le> off c" and ob: "off c < bufsize c"
    and nb: "nbuf c \<le> bufsize c"
    by (auto simp: chan_reach_def split: if_splits)
  from r bs obtain b where b: "buf c = Some b" and lb: "int (length b) < 2147483648"
    by (auto simp: chan_reach_def split: option.splits)
  from r bs b pos have es: "0 \<le> elemsize c"
    and M: "min (off c + nbuf c) (bufsize c) * elemsize c \<le> int (length b)"
    and W: "0 < elemsize c \<longrightarrow> off c + nbuf c \<le> 2147483648"
    by (auto simp: chan_reach_def split: if_splits)
  have o': "(off c + 1) smod bufsize c = (off c + 1) mod bufsize c"
    using o0 bs by (simp add: smod_nonneg)
  define o2 where "o2 = (off c + 1) mod bufsize c"
  have o2r: "0 \<le> o2" "o2 < bufsize c" using bs by (simp_all add: o2_def)
  have "o2 \<le> off c + 1" unfolding o2_def using o0 by (intro zmod_le_nonneg_dividend) simp
  then have le: "o2 + (nbuf c - 1) \<le> off c + nbuf c" by simp
  then have "min (o2 + (nbuf c - 1)) (bufsize c) \<le> min (off c + nbuf c) (bufsize c)" by simp
  then have "min (o2 + (nbuf c - 1)) (bufsize c) * elemsize c \<le>
             min (off c + nbuf c) (bufsize c) * elemsize c"
    using es by (rule mult_right_mono)
  with M have M': "min (o2 + (nbuf c - 1)) (bufsize c) * elemsize c \<le> int (length b)" by simp
  have W': "0 < elemsize c \<longrightarrow> o2 + (nbuf c - 1) \<le> 2147483648" using W le by auto
  show ?thesis
    using pos nb o2r es lb M' W' bs unfolding o' o2_def[symmetric]
    by (simp add: chan_reach_def b)
qed

lemma chansend_reach:
  assumes "chansend h p v = Returns (r, h')" "h y = Some c" "chan_reach c"
  shows "\<exists>c'. h' y = Some c' \<and> chan_reach c' \<and> elemsize c' = elemsize c \<and>
           bufsize c' = bufsize c"
proof (cases p)
  case None
  with assms show ?thesis by (simp add: chansend_def)
next
  case (Some a)
  show ?thesis
  proof (cases "a = y")
    case False
    with assms Some show ?thesis
      by (auto simp: chansend_def wait_notfull_eq split: option.splits if_splits)
  next
    case True
    from assms(1) Some True have
      eq: "chansend h (Some y) v = Returns (r, h')" by simp
    consider "h' = h" | c2 where "nbuf c < bufsize c" "put_elem c v = Some c2"
      "h' = h(y \<mapsto> c2\<lparr>nbuf := nbuf c2 + 1\<rparr>)"
      using eq unfolding chansend_Some[of h y c v, OF assms(2)]
      by (cases "put_elem c v") (simp_all split: if_splits)
    then show ?thesis
    proof cases
      case 1
      with assms show ?thesis by simp
    next
      case (2 c2)
      from put_elem_reach[OF assms(3) 2(1,2)] put_elem_fields[OF 2(2)] 2(3) show ?thesis by simp
    qed
  qed
qed

lemma channbsend_reach:
  assumes "channbsend h p v = Returns (r, h')" "h y = Some c" "chan_reach c"
  shows "\<exists>c'. h' y = Some c' \<and> chan_reach c' \<and> elemsize c' = elemsize c \<and>
           bufsize c' = bufsize c"
proof (cases p)
  case None
  with assms show ?thesis by (simp add: channbsend_def)
next
  case (Some a)
  show ?thesis
  proof (cases "a = y")
    case False
    with assms Some show ?thesis
      by (auto simp: channbsend_def split: option.splits if_splits)
  next
    case True
    from assms(1) Some True have
      eq: "channbsend h (Some y) v = Returns (r, h')" by simp
    consider "h' = h" | c2 where "nbuf c < bufsize c" "put_elem c v = Some c2"
      "h' = h(y \<mapsto> c2\<lparr>nbuf := nbuf c2 + 1\<rparr>)"
      using eq assms(2) unfolding channbsend_def
      by (cases "put_elem c v") (simp_all split: if_splits)
    then show ?thesis
    proof cases
      case 1
      with assms show ?thesis by simp
    next
      case (2 c2)
      from put_elem_reach[OF assms(3) 2(1,2)] put_elem_fields[OF 2(2)] 2(3) show ?thesis by simp
    qed
  qed
qed

lemma chanrecv_reach:
  assumes "chanrecv h p v = Returns (r, h', v')" "h y = Some c" "chan_reach c"
  shows "\<exists>c'. h' y = Some c' \<and> chan_reach c' \<and> elemsize c' = elemsize c \<and>
           bufsize c' = bufsize c"
proof (cases p)
  case None
  with assms show ?thesis by (simp add: chanrecv_def)
next
  case (Some a)
  show ?thesis
  proof (cases "a = y")
    case False
    with assms Some show ?thesis
      by (auto simp: chanrecv_def wait_notempty_eq split: option.splits if_splits)
  next
    case True
    from assms(1) Some True have
      eq: "chanrecv h (Some y) v = Returns (r, h', v')" by simp
    consider "h' = h" | "0 < nbuf c"
      "h' = h(y \<mapsto> c\<lparr>off := (off c + 1) smod bufsize c, nbuf := nbuf c - 1\<rparr>)"
      using eq unfolding chanrecv_Some[of h y c v, OF assms(2)]
      by (cases "get_elem c v") (simp_all split: if_splits)
    then show ?thesis
    proof cases
      case 1
      with assms show ?thesis by simp
    next
      case 2
      from recv_step_reach[OF assms(3) 2(1)] 2(2) show ?thesis by simp
    qed
  qed
qed

lemma channbrecv_reach:
  assumes "channbrecv h p v = Returns (r, h', v')" "h y = Some c" "chan_reach c"
  shows "\<exists>c'. h' y = Some c' \<and> chan_reach c' \<and> elemsize c' = elemsize c \<and>
           bufsize c' = bufsize c"
proof (cases p)
  case None
  with assms show ?thesis by (simp add: channbrecv_def)
next
  case (Some a)
  show ?thesis
  proof (cases "a = y")
    case False
    with assms Some show ?thesis
      by (auto simp: channbrecv_def split: option.splits if_splits)
  next
    case True
    from assms(1) Some True have
      eq: "channbrecv h (Some y) v = Returns (r, h', v')" by simp
    consider "h' = h" | "0 < nbuf c"
      "h' = h(y \<mapsto> c\<lparr>off := (off c + 1) smod bufsize c, nbuf := nbuf c - 1\<rparr>)"
      using eq assms(2) unfolding channbrecv_def
      by (cases "get_elem c v") (simp_all split: if_splits)
    then show ?thesis
    proof cases
      case 1
      with assms show ?thesis by simp
    next
      case 2
      from recv_step_reach[OF assms(3) 2(1)] 2(2) show ?thesis by simp
    qed
  qed
qed

lemma chanclose_reach:
  assumes "chanclose h p = Returns h'" "h y = Some c" "chan_reach c"
  shows "\<exists>c'. h' y = Some c' \<and> chan_reach c' \<and> elemsize c' = elemsize c \<and>
           bufsize c' = bufsize c"
proof -
  have "chan_reach (c\<lparr>closed := 1\<rparr>) = chan_reach c"
    by (cases "buf c") (simp_all add: chan_reach_def)
  with assms show ?thesis
    by (cases p) (auto simp: chanclose_def split: option.splits if_splits)
qed

lemma apply_op_reach:
  assumes "apply_op h p x = Returns h'" "h y = Some c" "chan_reach c"
  shows "\<exists>c'. h' y = Some c' \<and> chan_reach c' \<and> elemsize c' = elemsize c \<and>
           bufsize c' = bufsize c"
proof (cases x)
  case (Send v)
  with assms(1) obtain r where "chansend h p v = Returns (r, h')"
    by (auto split: outcome.splits)
  from chansend_reach[OF this assms(2,3)] show ?thesis .
next
  case (Recv v)
  with assms(1) obtain r v' where "chanrecv h p v = Returns (r, h', v')"
    by (auto split: outcome.splits)
  from chanrecv_reach[OF this assms(2,3)] show ?thesis .
next
  case (NbSend v)
  with assms(1) obtain r where "channbsend h p v = Returns (r, h')"
    by (auto split: outcome.splits)
  from channbsend_reach[OF this assms(2,3)] show ?thesis .
next
  case (NbRecv v)
  with assms(1) obtain r v' where "channbrecv h p v = Returns (r, h', v')"
    by (auto split: outcome.splits)
  from channbrecv_reach[OF this assms(2,3)] show ?thesis .
next
  case Close
  with assms(1) have "chanclose h p = Returns h'" by simp
  from chanclose_reach[OF this assms(2,3)] show ?thesis .
qed

lemma run_reach:
  assumes "run h xs = Returns h'" "h y = Some c" "chan_reach c"
  shows "\<exists>c'. h' y = Some c' \<and> chan_reach c' \<and> elemsize c' = elemsize c \<and>
           bufsize c' = bufsize c"
  using assms
proof (induction xs arbitrary: h c)
  case Nil
  then show ?case by simp
next
  case (Cons px xs)
  obtain p x where px: "px = (p, x)" by (cases px)
  show ?case
  proof (cases "apply_op h p x")
    case (Returns h1)
    with Cons.prems(1) px have r: "run h1 xs = Returns h'" by simp
    from apply_op_reach[OF Returns Cons.prems(2,3)] obtain c1 where
      c1: "h1 y = Some c1" "chan_reach c1" and e: "elemsize c1 = elemsize c"
      "bufsize c1 = bufsize c"
      by blast
    from Cons.IH[OF r c1] e show ?thesis by simp
  next
    case (Blocks w)
    with Cons.prems(1) px have r: "run h xs = Returns h'" by simp
    from Cons.IH[OF r Cons.prems(2,3)] show ?thesis .
  next
    case Undefined
    with Cons.prems(1) px show ?thesis by simp
  qed
qed

lemma chancreate_reach:
  assumes "malloc_ok mb" "chancreate mc mb h es bs = (Some a, h')"
  shows "\<exists>c. h' a = Some c \<and> chan_reach c \<and> nbuf c = 0 \<and> closed c = 0 \<and> \<not> lock c \<and>
           elemsize c = es \<and> bufsize c = bs"
proof (cases "0 < bs")
  case False
  with assms(2) have
    "h' = h(a \<mapsto> \<lparr>buf = None, elemsize = es, bufsize = bs, nbuf = 0, off = 0,
                     lock = False, closed = 0\<rparr>)"
    by (auto simp: chancreate_def Let_def split: option.splits)
  with False show ?thesis by (simp add: chan_reach_def)
next
  case True
  with assms(2) obtain b where b: "mb (wrap32 (es * bs)) = Some b" and
    h': "h' = h(a \<mapsto> \<lparr>buf = Some b, elemsize = es, bufsize = bs, nbuf = 0, off = 0,
                       lock = False, closed = 0\<rparr>)"
    by (auto simp: chancreate_def Let_def split: option.splits)
  from assms(1) b have "int (length b) = wrap32 (es * bs)" by (auto simp: malloc_ok_def)
  with wrap32_less[of "es * bs"] have "int (length b) < 2147483648" by simp
  with True h' show ?thesis by (simp add: chan_reach_def)
qed

section \<open>Nil handles\<close>

text \<open>
  C9.  Every operation called with a nil channel returns without touching the store:
  \<^verbatim>\<open>chansend\<close> and \<^verbatim>\<open>chanrecv\<close> return -1, \<^verbatim>\<open>channbsend\<close> and \<^verbatim>\<open>channbrecv\<close> return 0,
  \<^verbatim>\<open>chanlen\<close> returns 0, \<^verbatim>\<open>chanclose\<close> and \<^verbatim>\<open>chanfree\<close> return with the store and the
  caller's value slot as they were.
\<close>

theorem nil_handle_total:
  "chansend h None v = Returns (- 1, h) \<and>
   chanrecv h None v = Returns (- 1, h, v) \<and>
   channbsend h None v = Returns (0, h) \<and>
   channbrecv h None v = Returns (0, h, v) \<and>
   chanlen h None = Returns 0 \<and>
   chanclose h None = Returns h \<and>
   chanfree h None = Returns h"
  by (simp add: chansend_def chanrecv_def channbsend_def channbrecv_def chanlen_def
      chanclose_def chanfree_def)

theorem nil_handle_total_witness:
  "chansend (\<lambda>_. None) None [1] = Returns (- 1, \<lambda>_. None) \<and>
   chanrecv (\<lambda>_. None) None [1] = Returns (- 1, \<lambda>_. None, [1]) \<and>
   channbsend (\<lambda>_. None) None [1] = Returns (0, \<lambda>_. None) \<and>
   channbrecv (\<lambda>_. None) None [1] = Returns (0, \<lambda>_. None, [1]) \<and>
   chanlen (\<lambda>_. None) None = Returns 0 \<and>
   chanclose (\<lambda>_. None) None = Returns (\<lambda>_. None) \<and>
   chanfree (\<lambda>_. None) None = Returns (\<lambda>_. None)"
  using nil_handle_total [of "\<lambda>_. None" "[1]"] by simp

section \<open>FIFO order\<close>

text \<open>
  C1 (as amended).  On a well-formed channel (\<open>chan_wf\<close>: the element size is not
  negative, the buffer has \<open>elemsize * bufsize\<close> bytes and that product is below \<open>2^31\<close>)
  that is empty and open, whose mutex is free, whose capacity is at least \<open>N\<close> and
  whose offset \<open>off\<close> satisfies \<open>off + N \<le> 2^31\<close> (as it does on every new channel, where
  \<open>off = 0\<close>, and on every channel of capacity at most \<open>2^30\<close>), \<open>N\<close> sends of values of
  the channel's element size followed by \<open>N\<close> receives into slots of that size, with no
  other call in between, all return 1, and the receives yield the sent values in the order
  sent.  By \<open>chancreate_wf\<close> the channels that \<^verbatim>\<open>chancreate\<close> returns for such sizes are
  well formed.
\<close>

theorem fifo_law:
  assumes "h a = Some c" "chan_wf c" "\<not> lock c" "closed c = 0" "nbuf c = 0"
    "int (length vs) \<le> bufsize c" "\<forall>v\<in>set vs. int (length v) = elemsize c"
    "length ds = length vs" "\<forall>d\<in>set ds. int (length d) = elemsize c"
    "off c + int (length vs) \<le> 2147483648"
  shows "\<exists>h1 h2. send_all h (Some a) vs = Returns (replicate (length vs) 1, h1) \<and>
           recv_all h1 (Some a) ds = Returns (map (\<lambda>v. (1, v)) vs, h2)"
proof -
  have e: "contents c = []"
    using length_contents[OF assms(2)] assms(5) by simp
  from send_all_ok[of h a c vs, OF assms(1-4) _ assms(7)] assms(5,6,10) e obtain c1 where
    s: "send_all h (Some a) vs = Returns (replicate (length vs) 1, h(a \<mapsto> c1))" and
    w1: "chan_wf c1" and ct1: "contents c1 = vs" and e1: "elemsize c1 = elemsize c" and
    n1: "nbuf c1 = int (length vs)" and l1: "\<not> lock c1"
    by auto
  have "\<exists>c'. recv_all (h(a \<mapsto> c1)) (Some a) ds =
             Returns (map (\<lambda>x. (1, x)) (take (length ds) (contents c1)),
                      (h(a \<mapsto> c1))(a \<mapsto> c')) \<and>
           chan_wf c' \<and> contents c' = drop (length ds) (contents c1) \<and>
           elemsize c' = elemsize c1 \<and> bufsize c' = bufsize c1 \<and>
           nbuf c' = nbuf c1 - int (length ds) \<and> \<not> lock c' \<and> closed c' = closed c1"
    using w1 l1 n1 e1 assms(8,9) by (intro recv_all_ok) auto
  then obtain c2 where
    "recv_all (h(a \<mapsto> c1)) (Some a) ds = Returns (map (\<lambda>x. (1, x)) vs, h(a \<mapsto> c2))"
    using ct1 assms(8) by auto
  with s show ?thesis by blast
qed

theorem fifo_law_witness:
  "\<exists>h1 h2.
     send_all ((\<lambda>_. None)(0 \<mapsto> \<lparr>buf = Some [9, 9, 9, 9, 9, 9], elemsize = 2, bufsize = 3,
                 nbuf = 0, off = 2, lock = False, closed = 0\<rparr>))
       (Some 0) [[1, 2], [3, 4], [5, 6]] = Returns ([1, 1, 1], h1) \<and>
     recv_all h1 (Some 0) [[0, 0], [0, 0], [0, 0]] =
       Returns ([(1, [1, 2]), (1, [3, 4]), (1, [5, 6])], h2)"
  using fifo_law [of "(\<lambda>_. None)(0 \<mapsto> \<lparr>buf = Some [9, 9, 9, 9, 9, 9], elemsize = 2,
                 bufsize = 3, nbuf = 0, off = 2, lock = False, closed = 0\<rparr>)" 0
      "\<lparr>buf = Some [9, 9, 9, 9, 9, 9], elemsize = 2, bufsize = 3,
                 nbuf = 0, off = 2, lock = False, closed = 0\<rparr>"
      "[[1, 2], [3, 4], [5, 6]]" "[[0, 0], [0, 0], [0, 0]]"]
  by (simp add: chan_wf_def sizes_ok_def)

text \<open>
  C1 as stated fails where the 32-bit arithmetic wraps.  On a channel of element size 1
  and capacity \<open>2^31 - 1\<close> whose offset has reached \<open>2^31 - 2\<close> (by \<open>rounds_advance_off\<close>,
  after that many rounds of one send and one receive), the third of three sends computes
  \<^verbatim>\<open>off + nbuf\<close> as \<open>- 2^31\<close> and a position before the buffer.  And
  \<^verbatim>\<open>chancreate(65536, 65537)\<close> asks \<^verbatim>\<open>malloc\<close> for the 32-bit product 65536, so the channel it
  returns has capacity 65537 and room for one element: the second of two sends writes
  behind the buffer.
\<close>

theorem fifo_fails_when_arithmetic_wraps:
  "send_all
     ((\<lambda>_. None)(0 \<mapsto> \<lparr>buf = Some (replicate 2147483647 0), elemsize = 1,
         bufsize = 2147483647, nbuf = 0, off = 2147483646, lock = False, closed = 0\<rparr>))
     (Some 0) [[1], [2], [3]] = Undefined \<and>
   chancreate (Some 0) (\<lambda>n. if 0 \<le> n then Some (replicate (nat n) 0) else None) (\<lambda>_. None)
       65536 65537 =
     (Some 0, (\<lambda>_. None)(0 \<mapsto> \<lparr>buf = Some (replicate 65536 0), elemsize = 65536,
         bufsize = 65537, nbuf = 0, off = 0, lock = False, closed = 0\<rparr>)) \<and>
   send_all
     ((\<lambda>_. None)(0 \<mapsto> \<lparr>buf = Some (replicate 65536 0), elemsize = 65536,
         bufsize = 65537, nbuf = 0, off = 0, lock = False, closed = 0\<rparr>))
     (Some 0) [replicate 65536 1, replicate 65536 2] = Undefined"
  by (simp add: chancreate_def chansend_Some put_elem_def memcpy_def wrap32_def
      signed_modulo_int_def)

section \<open>Close\<close>

text \<open>
  C3.  On a channel that holds \<open>K\<close> buffered values (\<open>chan_holds\<close>: the occupied
  elements lie inside its buffer; by \<open>chancreate_reach\<close>, \<open>run_reach\<close> and
  \<open>chan_reach_holds\<close> this is so on every channel that \<^verbatim>\<open>chancreate\<close> returns, for any
  sizes, and that the operations leave) and whose mutex is free, \<^verbatim>\<open>chanclose\<close> returns,
  the next \<open>K\<close> receives, into slots of the element size, return 1 and yield the buffered
  values in buffer order, and the receive after them returns -1 and leaves the caller's
  slot as it was.
\<close>

theorem close_drains_then_fails:
  assumes "h a = Some c" "chan_holds c" "\<not> lock c" "int (length ds) = nbuf c"
    "\<forall>x\<in>set ds. int (length x) = elemsize c"
  shows "\<exists>h1 h2. chanclose h (Some a) = Returns h1 \<and>
           recv_all h1 (Some a) ds = Returns (map (\<lambda>x. (1, x)) (contents c), h2) \<and>
           chanrecv h2 (Some a) d = Returns (- 1, h2, d)"
proof -
  let ?c1 = "c\<lparr>closed := 1\<rparr>"
  have cl: "chanclose h (Some a) = Returns (h(a \<mapsto> ?c1))"
    using assms(1,3) by (simp add: chanclose_def)
  have "chan_holds ?c1 = chan_holds c" by (cases "buf c") (simp_all add: chan_holds_def)
  with assms(2) have w1: "chan_holds ?c1" by simp
  have ct1: "contents ?c1 = contents c" by (simp add: contents_def split: option.splits)
  have "\<exists>c'. recv_all (h(a \<mapsto> ?c1)) (Some a) ds =
             Returns (map (\<lambda>x. (1, x)) (take (length ds) (contents ?c1)),
                      (h(a \<mapsto> ?c1))(a \<mapsto> c')) \<and>
           chan_holds c' \<and> contents c' = drop (length ds) (contents ?c1) \<and>
           elemsize c' = elemsize ?c1 \<and> bufsize c' = bufsize ?c1 \<and>
           nbuf c' = nbuf ?c1 - int (length ds) \<and> \<not> lock c' \<and> closed c' = closed ?c1"
    using w1 assms(3,4,5) by (intro recv_all_holds) auto
  then obtain c2 where
    r: "recv_all (h(a \<mapsto> ?c1)) (Some a) ds =
          Returns (map (\<lambda>x. (1, x)) (take (length ds) (contents c)), h(a \<mapsto> c2))" and
    n2: "nbuf c2 = 0" and l2: "\<not> lock c2" and c2: "closed c2 = 1"
    using ct1 assms(4) by auto
  have tk: "take (length ds) (contents c) = contents c"
    using length_contents_holds[OF assms(2)] assms(4) by simp
  have "chanrecv (h(a \<mapsto> c2)) (Some a) d = Returns (- 1, h(a \<mapsto> c2), d)"
    using n2 l2 c2 by (simp add: chanrecv_Some)
  with cl r tk show ?thesis by auto
qed

theorem close_drains_then_fails_witness:
  "\<exists>h1 h2.
     chanclose ((\<lambda>_. None)(0 \<mapsto> \<lparr>buf = Some [1, 2, 3, 4, 5, 6], elemsize = 2, bufsize = 3,
                 nbuf = 2, off = 2, lock = False, closed = 0\<rparr>)) (Some 0) = Returns h1 \<and>
     recv_all h1 (Some 0) [[0, 0], [0, 0]] = Returns ([(1, [5, 6]), (1, [1, 2])], h2) \<and>
     chanrecv h2 (Some 0) [7, 7] = Returns (- 1, h2, [7, 7])"
proof -
  let ?c = "\<lparr>buf = Some [1, 2, 3, 4, 5, 6], elemsize = 2, bufsize = 3,
             nbuf = 2, off = 2, lock = False, closed = 0\<rparr>"
  have ct: "contents ?c = [[5, 6], [1, 2]]"
    by code_simp
  have w: "chan_holds ?c"
    by code_simp
  from close_drains_then_fails [of "(\<lambda>_. None)(0 \<mapsto> ?c)" 0 ?c "[[0, 0], [0, 0]]" "[7, 7]"] w ct
  show ?thesis
    by (simp del: recv_all.simps)
qed

section \<open>alt\<close>

lemma channbrecv_zero:
  "channbrecv h p v = Returns (r, h', v') \<Longrightarrow> r = 0 \<Longrightarrow> h' = h \<and> v' = v"
  by (auto simp: channbrecv_def split: option.splits if_splits)

lemma channbsend_zero:
  "channbsend h p v = Returns (r, h') \<Longrightarrow> r = 0 \<Longrightarrow> h' = h"
  by (auto simp: channbsend_def split: option.splits if_splits)

lemma alt_loop1_None:
  "alt_loop1 h alts i = Returns (None, h', alts') \<Longrightarrow> h' = h \<and> alts' = alts"
proof (induction h alts i rule: alt_loop1.induct)
  case (1 h alts i)
  from "1.prems" have lt: "\<not> length alts \<le> i"
    by (subst (asm) alt_loop1.simps) (auto split: if_splits)
  show ?case
  proof (cases "alt_op (alts ! i) = CHANEND")
    case True
    with "1.prems" lt show ?thesis by (subst (asm) alt_loop1.simps) simp
  next
    case ne: False
    show ?thesis
    proof (cases "alt_op (alts ! i) = CHANNOBLK")
      case True
      with "1.prems" lt ne show ?thesis by (subst (asm) alt_loop1.simps) simp
    next
      case nb: False
      show ?thesis
      proof (cases "alt_op (alts ! i) = CHANRCV")
        case True
        from "1.prems" lt ne nb True obtain r h1 v1 where
          c: "channbrecv h (alt_c (alts ! i)) (alt_v (alts ! i)) = Returns (r, h1, v1)" and
          r: "r = 0" and
          n: "alt_loop1 h1 (alts[i := (alts ! i)\<lparr>alt_v := v1\<rparr>]) (i + 1) = Returns (None, h', alts')"
          by (subst (asm) alt_loop1.simps) (auto split: outcome.splits if_splits)
        from channbrecv_zero[OF c r] have e: "h1 = h" "v1 = alt_v (alts ! i)" by simp_all
        from "1.IH"(1)[OF lt ne nb True c refl refl _ n] r have "h' = h1 \<and> alts' = alts[i := (alts ! i)\<lparr>alt_v := v1\<rparr>]"
          by simp
        with e show ?thesis by simp
      next
        case nr: False
        show ?thesis
        proof (cases "alt_op (alts ! i) = CHANSND")
          case True
          from "1.prems" lt ne nb nr True obtain r h1 where
            c: "channbsend h (alt_c (alts ! i)) (alt_v (alts ! i)) = Returns (r, h1)" and
            r: "r = 0" and
            n: "alt_loop1 h1 alts (i + 1) = Returns (None, h', alts')"
            by (subst (asm) alt_loop1.simps) (auto split: outcome.splits if_splits)
          from channbsend_zero[OF c r] have e: "h1 = h" by simp
          from "1.IH"(2)[OF lt ne nb nr True c refl _ n] r have "h' = h1 \<and> alts' = alts"
            by simp
          with e show ?thesis by simp
        next
          case False
          from "1.prems" lt ne nb nr False have
            n: "alt_loop1 h alts (i + 1) = Returns (None, h', alts')"
            by (subst (asm) alt_loop1.simps) simp
          from "1.IH"(3)[OF lt ne nb nr False n] show ?thesis .
        qed
      qed
    qed
  qed
qed


lemma alt_loop1_rcv:
  "i < length alts \<Longrightarrow> alt_op (alts ! i) = CHANRCV \<Longrightarrow>
   alt_loop1 h alts i =
     (case channbrecv h (alt_c (alts ! i)) (alt_v (alts ! i)) of
        Returns (r, h', v') \<Rightarrow>
          if r \<noteq> 0 then Returns (Some (int i), h', alts[i := (alts ! i)\<lparr>alt_v := v'\<rparr>])
          else alt_loop1 h' (alts[i := (alts ! i)\<lparr>alt_v := v'\<rparr>]) (i + 1)
      | Blocks w \<Rightarrow> Blocks w
      | Undefined \<Rightarrow> Undefined)"
  by (subst alt_loop1.simps) (simp add: CHANRCV_def CHANEND_def CHANNOBLK_def)

lemma alt_loop1_snd:
  "i < length alts \<Longrightarrow> alt_op (alts ! i) = CHANSND \<Longrightarrow>
   alt_loop1 h alts i =
     (case channbsend h (alt_c (alts ! i)) (alt_v (alts ! i)) of
        Returns (r, h') \<Rightarrow>
          if r \<noteq> 0 then Returns (Some (int i), h', alts) else alt_loop1 h' alts (i + 1)
      | Blocks w \<Rightarrow> Blocks w
      | Undefined \<Rightarrow> Undefined)"
  by (subst alt_loop1.simps) (simp add: CHANRCV_def CHANSND_def CHANEND_def CHANNOBLK_def)

lemma alt_loop2_rcv:
  "i < length alts \<Longrightarrow> alt_op (alts ! i) = CHANRCV \<Longrightarrow>
   alt_loop2 h alts i =
     (case chanrecv h (alt_c (alts ! i)) (alt_v (alts ! i)) of
        Returns (r, h', v') \<Rightarrow>
          if r > 0 then Returns (int i, h', alts[i := (alts ! i)\<lparr>alt_v := v'\<rparr>])
          else alt_loop2 h' (alts[i := (alts ! i)\<lparr>alt_v := v'\<rparr>]) (i + 1)
      | Blocks w \<Rightarrow> Blocks w
      | Undefined \<Rightarrow> Undefined)"
  by (subst alt_loop2.simps) (simp add: CHANRCV_def CHANEND_def)

lemma alt_loop2_snd:
  "i < length alts \<Longrightarrow> alt_op (alts ! i) = CHANSND \<Longrightarrow>
   alt_loop2 h alts i =
     (case chansend h (alt_c (alts ! i)) (alt_v (alts ! i)) of
        Returns (r, h') \<Rightarrow>
          if r > 0 then Returns (int i, h', alts) else alt_loop2 h' alts (i + 1)
      | Blocks w \<Rightarrow> Blocks w
      | Undefined \<Rightarrow> Undefined)"
  by (subst alt_loop2.simps) (simp add: CHANRCV_def CHANSND_def CHANEND_def)

lemma alt_loop1_end:
  "i < length alts \<Longrightarrow> alt_op (alts ! i) = CHANEND \<Longrightarrow>
   alt_loop1 h alts i = Returns (None, h, alts)"
  by (subst alt_loop1.simps) simp

lemma alt_loop2_end:
  "i < length alts \<Longrightarrow> alt_op (alts ! i) = CHANEND \<Longrightarrow>
   alt_loop2 h alts i = Returns (- 1, h, alts)"
  by (subst alt_loop2.simps) simp

text \<open>
  C5 (as amended).  \<^verbatim>\<open>alt\<close> on an array that starts with a receive on \<open>A\<close> and a receive
  on \<open>B\<close> into a slot of the element size of \<open>B\<close>, where \<open>A\<close> is empty, \<open>B\<close> holds at
  least one value (\<open>chan_holds\<close>: the occupied elements lie inside its buffer, as on
  every channel that \<^verbatim>\<open>chancreate\<close> returns and the operations leave) and the mutex of
  \<open>B\<close> is not held by another thread: the call returns index 1 without blocking, the slot
  of entry 1 holds the front value of \<open>B\<close>, that value is removed from \<open>B\<close>, and the
  struct of \<open>A\<close> is as it was.
\<close>

theorem select_first_ready:
  assumes "h a = Some A" "nbuf A = 0" "h b = Some B" "chan_holds B" "\<not> lock B" "0 < nbuf B"
    "int (length vb) = elemsize B"
  shows "\<exists>B'. alt h (\<lparr>alt_c = Some a, alt_v = va, alt_op = CHANRCV\<rparr> #
                      \<lparr>alt_c = Some b, alt_v = vb, alt_op = CHANRCV\<rparr> # rest) =
             Returns (1, h(b \<mapsto> B'),
                      \<lparr>alt_c = Some a, alt_v = va, alt_op = CHANRCV\<rparr> #
                      \<lparr>alt_c = Some b, alt_v = hd (contents B), alt_op = CHANRCV\<rparr> # rest) \<and>
           (h(b \<mapsto> B')) a = Some A \<and>
           contents B' = tl (contents B) \<and> nbuf B' = nbuf B - 1"
proof -
  let ?eA = "\<lparr>alt_c = Some a, alt_v = va, alt_op = CHANRCV\<rparr>"
  let ?eB = "\<lparr>alt_c = Some b, alt_v = vb, alt_op = CHANRCV\<rparr>"
  let ?alts = "?eA # ?eB # rest"
  have ab: "a \<noteq> b" using assms(1,2,3,6) by auto
  have na: "channbrecv h (Some a) va = Returns (0, h, va)"
    using assms(1,2) by (simp add: channbrecv_def)
  have lv: "elemsize B \<le> int (length vb)" and dv: "drop (nat (elemsize B)) vb = []"
    using assms(7) by simp_all
  from channbrecv_holds[of h b B vb, OF assms(3,4,5,6) lv] dv obtain B' where
    nb: "channbrecv h (Some b) vb = Returns (1, h(b \<mapsto> B'), hd (contents B))" and
    ct: "contents B' = tl (contents B)" and n: "nbuf B' = nbuf B - 1"
    by auto
  have s0: "alt_loop1 h ?alts 0 = alt_loop1 h ?alts (Suc 0)"
    by (simp add: alt_loop1_rcv na CHANRCV_def CHANEND_def CHANNOBLK_def)
  have s1: "alt_loop1 h ?alts (Suc 0) =
              Returns (Some 1, h(b \<mapsto> B'),
                ?eA # \<lparr>alt_c = Some b, alt_v = hd (contents B), alt_op = CHANRCV\<rparr> # rest)"
    by (simp add: alt_loop1_rcv nb CHANRCV_def CHANEND_def CHANNOBLK_def)
  have "alt h ?alts =
          Returns (1, h(b \<mapsto> B'),
            ?eA # \<lparr>alt_c = Some b, alt_v = hd (contents B), alt_op = CHANRCV\<rparr> # rest)"
    by (simp add: alt_def s0 s1)
  with ct n ab assms(1) show ?thesis by (intro exI[of _ B']) simp
qed

theorem select_first_ready_witness:
  "\<exists>B'. alt ((\<lambda>_. None)(0 \<mapsto> \<lparr>buf = Some [0, 0], elemsize = 2, bufsize = 1, nbuf = 0,
                  off = 0, lock = False, closed = 0\<rparr>,
                1 \<mapsto> \<lparr>buf = Some [1, 2, 3, 4], elemsize = 2, bufsize = 2, nbuf = 1,
                  off = 1, lock = False, closed = 0\<rparr>))
          [\<lparr>alt_c = Some 0, alt_v = [0, 0], alt_op = CHANRCV\<rparr>,
           \<lparr>alt_c = Some 1, alt_v = [0, 0], alt_op = CHANRCV\<rparr>,
           \<lparr>alt_c = None, alt_v = [], alt_op = CHANEND\<rparr>] =
        Returns (1,
          ((\<lambda>_. None)(0 \<mapsto> \<lparr>buf = Some [0, 0], elemsize = 2, bufsize = 1, nbuf = 0,
                  off = 0, lock = False, closed = 0\<rparr>,
                1 \<mapsto> \<lparr>buf = Some [1, 2, 3, 4], elemsize = 2, bufsize = 2, nbuf = 1,
                  off = 1, lock = False, closed = 0\<rparr>))(1 \<mapsto> B'),
          [\<lparr>alt_c = Some 0, alt_v = [0, 0], alt_op = CHANRCV\<rparr>,
           \<lparr>alt_c = Some 1, alt_v = [3, 4], alt_op = CHANRCV\<rparr>,
           \<lparr>alt_c = None, alt_v = [], alt_op = CHANEND\<rparr>]) \<and>
        contents B' = [] \<and> nbuf B' = 0"
proof -
  let ?A = "\<lparr>buf = Some [0, 0], elemsize = 2, bufsize = 1, nbuf = 0,
              off = 0, lock = False, closed = 0\<rparr>"
  let ?B = "\<lparr>buf = Some [1, 2, 3, 4], elemsize = 2, bufsize = 2, nbuf = 1,
              off = 1, lock = False, closed = 0\<rparr>"
  have ct: "contents ?B = [[3, 4]]"
    by code_simp
  have w: "chan_holds ?B"
    by code_simp
  from select_first_ready [of "(\<lambda>_. None)(0 \<mapsto> ?A, 1 \<mapsto> ?B)" 0 ?A 1 ?B "[0, 0]" "[0, 0]"
      "[\<lparr>alt_c = None, alt_v = [], alt_op = CHANEND\<rparr>]"] w ct
  show ?thesis
    by simp
qed

text \<open>
  C5 as stated fails when the mutex of \<open>B\<close> is held by another thread at the moment of
  the call: \<^verbatim>\<open>pthread_mutex_trylock\<close> fails, \<^verbatim>\<open>channbrecv\<close> returns 0 although \<open>B\<close> holds a
  value, no entry is ready, and \<^verbatim>\<open>alt\<close> blocks in the receive on the empty channel \<open>A\<close>.
\<close>

theorem select_blocks_when_mutex_held:
  "alt ((\<lambda>_. None)(0 \<mapsto> \<lparr>buf = Some [0], elemsize = 1, bufsize = 1, nbuf = 0, off = 0,
                  lock = False, closed = 0\<rparr>,
                1 \<mapsto> \<lparr>buf = Some [8], elemsize = 1, bufsize = 1, nbuf = 1, off = 0,
                  lock = True, closed = 0\<rparr>))
     [\<lparr>alt_c = Some 0, alt_v = [0], alt_op = CHANRCV\<rparr>,
      \<lparr>alt_c = Some 1, alt_v = [0], alt_op = CHANRCV\<rparr>,
      \<lparr>alt_c = None, alt_v = [], alt_op = CHANEND\<rparr>] =
   Blocks (NotEmpty 0)"
  by (simp add: alt_def alt_loop1.simps alt_loop2.simps channbrecv_def chanrecv_Some
      CHANRCV_def CHANEND_def CHANNOBLK_def)

section \<open>The state invariant\<close>

lemma smod_range: "0 \<le> k \<Longrightarrow> 0 < l \<Longrightarrow> 0 \<le> k smod l \<and> k smod l < (l::int)"
  by (simp add: smod_nonneg)

lemma chansend_inv:
  assumes "chansend h p v = Returns (r, h')" "h y = Some c"
  shows "\<exists>c'. h' y = Some c' \<and> (chan_inv c \<longrightarrow> chan_inv c') \<and> closed c' = closed c \<and>
           lock c' = lock c"
proof (cases p)
  case None
  with assms show ?thesis by (simp add: chansend_def)
next
  case (Some a)
  show ?thesis
  proof (cases "a = y")
    case False
    with assms Some show ?thesis
      by (auto simp: chansend_def wait_notfull_eq split: option.splits if_splits)
  next
    case True
    with assms Some show ?thesis
      by (auto simp: chansend_Some chan_inv_def split: option.splits if_splits
          dest!: put_elem_fields)
  qed
qed

lemma channbsend_inv:
  assumes "channbsend h p v = Returns (r, h')" "h y = Some c"
  shows "\<exists>c'. h' y = Some c' \<and> (chan_inv c \<longrightarrow> chan_inv c') \<and> closed c' = closed c \<and>
           lock c' = lock c"
proof (cases p)
  case None
  with assms show ?thesis by (simp add: channbsend_def)
next
  case (Some a)
  show ?thesis
  proof (cases "a = y")
    case False
    with assms Some show ?thesis
      by (auto simp: channbsend_def split: option.splits if_splits)
  next
    case True
    with assms Some show ?thesis
      by (auto simp: channbsend_def chan_inv_def split: option.splits if_splits
          dest!: put_elem_fields)
  qed
qed

lemma chanrecv_inv:
  assumes "chanrecv h p v = Returns (r, h', v')" "h y = Some c"
  shows "\<exists>c'. h' y = Some c' \<and> (chan_inv c \<longrightarrow> chan_inv c') \<and> closed c' = closed c \<and>
           lock c' = lock c"
proof (cases p)
  case None
  with assms show ?thesis by (simp add: chanrecv_def)
next
  case (Some a)
  show ?thesis
  proof (cases "a = y")
    case False
    with assms Some show ?thesis
      by (auto simp: chanrecv_def wait_notempty_eq split: option.splits if_splits)
  next
    case True
    with assms Some show ?thesis
      by (auto simp: chanrecv_Some chan_inv_def smod_range split: option.splits if_splits)
  qed
qed

lemma channbrecv_inv:
  assumes "channbrecv h p v = Returns (r, h', v')" "h y = Some c"
  shows "\<exists>c'. h' y = Some c' \<and> (chan_inv c \<longrightarrow> chan_inv c') \<and> closed c' = closed c \<and>
           lock c' = lock c"
proof (cases p)
  case None
  with assms show ?thesis by (simp add: channbrecv_def)
next
  case (Some a)
  show ?thesis
  proof (cases "a = y")
    case False
    with assms Some show ?thesis
      by (auto simp: channbrecv_def split: option.splits if_splits)
  next
    case True
    with assms Some show ?thesis
      by (auto simp: channbrecv_def chan_inv_def smod_range split: option.splits if_splits)
  qed
qed

lemma chanclose_inv:
  assumes "chanclose h p = Returns h'" "h y = Some c"
  shows "\<exists>c'. h' y = Some c' \<and> (chan_inv c \<longrightarrow> chan_inv c') \<and>
           (closed c \<noteq> 0 \<longrightarrow> closed c' \<noteq> 0) \<and> lock c' = lock c"
  using assms
  by (cases p) (auto simp: chanclose_def chan_inv_def split: option.splits if_splits)

lemma apply_op_inv:
  assumes "apply_op h p x = Returns h'" "h y = Some c"
  shows "\<exists>c'. h' y = Some c' \<and> (chan_inv c \<longrightarrow> chan_inv c') \<and>
           (closed c \<noteq> 0 \<longrightarrow> closed c' \<noteq> 0) \<and> lock c' = lock c"
proof (cases x)
  case (Send v)
  with assms(1) obtain r where "chansend h p v = Returns (r, h')"
    by (auto split: outcome.splits)
  from chansend_inv[OF this assms(2)] show ?thesis by auto
next
  case (Recv v)
  with assms(1) obtain r v' where "chanrecv h p v = Returns (r, h', v')"
    by (auto split: outcome.splits)
  from chanrecv_inv[OF this assms(2)] show ?thesis by auto
next
  case (NbSend v)
  with assms(1) obtain r where "channbsend h p v = Returns (r, h')"
    by (auto split: outcome.splits)
  from channbsend_inv[OF this assms(2)] show ?thesis by auto
next
  case (NbRecv v)
  with assms(1) obtain r v' where "channbrecv h p v = Returns (r, h', v')"
    by (auto split: outcome.splits)
  from channbrecv_inv[OF this assms(2)] show ?thesis by auto
next
  case Close
  with assms(1) have "chanclose h p = Returns h'" by simp
  from chanclose_inv[OF this assms(2)] show ?thesis by auto
qed





section \<open>Creation\<close>

text \<open>
  C8 (as amended).  \<^verbatim>\<open>chancreate\<close> does not look at the element size.  It returns nil
  exactly when an allocation fails: the one of the struct, or, for a capacity \<open>bs > 0\<close>,
  the one of the buffer, whose requested size is the 32-bit product of element size and
  capacity.  For a capacity \<open>bs \<le> 0\<close> and any element size it returns a channel without
  a buffer as soon as the struct is allocated; for \<open>bs > 0\<close> it returns a channel with the
  allocated buffer.
\<close>

theorem create_fails_only_on_allocation:
  "(fst (chancreate mc mb h es bs) = None \<longleftrightarrow>
      mc = None \<or> 0 < bs \<and> mb (wrap32 (es * bs)) = None) \<and>
   (mc = Some a \<and> bs \<le> 0 \<longrightarrow>
      chancreate mc mb h es bs =
        (Some a, h(a \<mapsto> \<lparr>buf = None, elemsize = es, bufsize = bs, nbuf = 0, off = 0,
                          lock = False, closed = 0\<rparr>))) \<and>
   (mc = Some a \<and> 0 < bs \<and> mb (wrap32 (es * bs)) = Some b \<longrightarrow>
      chancreate mc mb h es bs =
        (Some a, h(a \<mapsto> \<lparr>buf = Some b, elemsize = es, bufsize = bs, nbuf = 0, off = 0,
                          lock = False, closed = 0\<rparr>)))"
  by (auto simp: chancreate_def Let_def split: option.splits)

theorem create_fails_only_on_allocation_witness:
  "chancreate (Some 0) (\<lambda>n. if 0 \<le> n then Some (replicate (nat n) 0) else None) (\<lambda>_. None) 0 (- 3) =
     (Some 0, (\<lambda>_. None)(0 \<mapsto> \<lparr>buf = None, elemsize = 0, bufsize = - 3, nbuf = 0, off = 0,
                                lock = False, closed = 0\<rparr>)) \<and>
   chancreate (Some 0) (\<lambda>n. if 0 \<le> n then Some (replicate (nat n) 0) else None) (\<lambda>_. None) 1 2 =
     (Some 0, (\<lambda>_. None)(0 \<mapsto> \<lparr>buf = Some [0, 0], elemsize = 1, bufsize = 2, nbuf = 0, off = 0,
                                lock = False, closed = 0\<rparr>)) \<and>
   fst (chancreate (Some 0) (\<lambda>n. if 0 \<le> n then Some (replicate (nat n) 0) else None)
          (\<lambda>_. None) (- 1) 2) = None \<and>
   chancreate (Some 0) (\<lambda>n. if 0 \<le> n then Some (replicate (nat n) 0) else None) (\<lambda>_. None)
       (- 65536) 65536 =
     (Some 0, (\<lambda>_. None)(0 \<mapsto> \<lparr>buf = Some [], elemsize = - 65536, bufsize = 65536, nbuf = 0,
                                off = 0, lock = False, closed = 0\<rparr>))"
proof -
  let ?mb = "\<lambda>n::int. if 0 \<le> n then Some (replicate (nat n) (0::byte)) else None"
  from
    create_fails_only_on_allocation [of "Some 0" ?mb "\<lambda>_. None" 0 "- 3" 0 "[]"]
    create_fails_only_on_allocation [of "Some 0" ?mb "\<lambda>_. None" 1 2 0 "[0, 0]"]
    create_fails_only_on_allocation [of "Some 0" ?mb "\<lambda>_. None" "- 1" 2 0 "[]"]
    create_fails_only_on_allocation [of "Some 0" ?mb "\<lambda>_. None" "- 65536" 65536 0 "[]"]
  show ?thesis
    by (simp add: numeral_2_eq_2 wrap32_def)
qed

text \<open>
  C8 as stated fails: with element size -1 and capacity 0 \<^verbatim>\<open>chancreate\<close> returns a
  channel; with element size 0 and capacity 2, where \<^verbatim>\<open>malloc(0)\<close> returns an empty block,
  it returns a channel on which \<^verbatim>\<open>chansend\<close> succeeds.
\<close>

theorem create_accepts_nonpositive_elemsize:
  "chancreate (Some 0) (\<lambda>n. None) (\<lambda>a. None) (- 1) 0 =
     (Some 0, (\<lambda>a. None)(0 \<mapsto> \<lparr>buf = None, elemsize = - 1, bufsize = 0, nbuf = 0, off = 0,
                                lock = False, closed = 0\<rparr>)) \<and>
   chancreate (Some 0) (\<lambda>n. if n = 0 then Some [] else None) (\<lambda>a. None) 0 2 =
     (Some 0, (\<lambda>a. None)(0 \<mapsto> \<lparr>buf = Some [], elemsize = 0, bufsize = 2, nbuf = 0, off = 0,
                                lock = False, closed = 0\<rparr>)) \<and>
   chansend ((\<lambda>a. None)(0 \<mapsto> \<lparr>buf = Some [], elemsize = 0, bufsize = 2, nbuf = 0, off = 0,
                                lock = False, closed = 0\<rparr>)) (Some 0) [] =
     Returns (1, (\<lambda>a. None)(0 \<mapsto> \<lparr>buf = Some [], elemsize = 0, bufsize = 2, nbuf = 1, off = 0,
                                lock = False, closed = 0\<rparr>))"
  by (simp add: chancreate_def chansend_Some put_elem_def memcpy_def wrap32_def)

section \<open>Capacity zero\<close>





section \<open>Sending after close\<close>

lemma closed_run:
  assumes "run h xs = Returns h'" "h a = Some c" "closed c \<noteq> 0" "\<not> lock c"
  shows "\<exists>c'. h' a = Some c' \<and> closed c' \<noteq> 0 \<and> \<not> lock c'"
  using assms
proof (induction xs arbitrary: h c)
  case Nil
  then show ?case by simp
next
  case (Cons px xs)
  obtain p x where px: "px = (p, x)" by (cases px)
  show ?case
  proof (cases "apply_op h p x")
    case (Returns h1)
    from apply_op_inv[of h p x h1 a c, OF Returns Cons.prems(2)] Cons.prems(3,4) obtain c1 where
      c1: "h1 a = Some c1" "closed c1 \<noteq> 0" "\<not> lock c1"
      by auto
    from Cons.prems(1) px Returns have "run h1 xs = Returns h'" by simp
    from Cons.IH[of h1 c1, OF this c1] show ?thesis .
  next
    case (Blocks w)
    with Cons.prems(1) px have "run h xs = Returns h'" by simp
    from Cons.IH[of h c, OF this Cons.prems(2-4)] show ?thesis .
  next
    case Undefined
    with Cons.prems(1) px show ?thesis by simp
  qed
qed

text \<open>
  C4 (as amended).  Once \<^verbatim>\<open>chanclose\<close> has returned, after any further history of calls,
  \<^verbatim>\<open>chansend\<close> returns -1 and \<^verbatim>\<open>channbsend\<close> returns 0, both at once and without
  changing the store, whatever the buffer space.
\<close>

theorem send_after_close:
  assumes "chanclose h (Some a) = Returns h1" "run h1 xs = Returns h2"
  shows "chansend h2 (Some a) v = Returns (- 1, h2) \<and>
         channbsend h2 (Some a) v = Returns (0, h2)"
proof -
  from assms(1) obtain c1 where "h1 a = Some c1" "closed c1 \<noteq> 0" "\<not> lock c1"
    by (auto simp: chanclose_def split: option.splits if_splits)
  from closed_run[of h1 xs h2 a c1, OF assms(2) this] obtain c2 where
    "h2 a = Some c2" "closed c2 \<noteq> 0" "\<not> lock c2"
    by blast
  then show ?thesis by (simp add: chansend_Some channbsend_def)
qed

theorem send_after_close_witness:
  "chansend ((\<lambda>_. None)(0 \<mapsto> \<lparr>buf = Some [0, 0], elemsize = 1, bufsize = 2, nbuf = 0, off = 0,
       lock = False, closed = 1\<rparr>)) (Some 0) [7] =
     Returns (- 1, (\<lambda>_. None)(0 \<mapsto> \<lparr>buf = Some [0, 0], elemsize = 1, bufsize = 2, nbuf = 0,
       off = 0, lock = False, closed = 1\<rparr>)) \<and>
   channbsend ((\<lambda>_. None)(0 \<mapsto> \<lparr>buf = Some [0, 0], elemsize = 1, bufsize = 2, nbuf = 0, off = 0,
       lock = False, closed = 1\<rparr>)) (Some 0) [7] =
     Returns (0, (\<lambda>_. None)(0 \<mapsto> \<lparr>buf = Some [0, 0], elemsize = 1, bufsize = 2, nbuf = 0,
       off = 0, lock = False, closed = 1\<rparr>))"
  using send_after_close [of
      "(\<lambda>_. None)(0 \<mapsto> \<lparr>buf = Some [0, 0], elemsize = 1, bufsize = 2, nbuf = 0, off = 0,
         lock = False, closed = 0\<rparr>)" 0
      "(\<lambda>_. None)(0 \<mapsto> \<lparr>buf = Some [0, 0], elemsize = 1, bufsize = 2, nbuf = 0, off = 0,
         lock = False, closed = 1\<rparr>)"
      "[(Some 0, NbSend [9]), (Some 0, Recv [0])]"
      "(\<lambda>_. None)(0 \<mapsto> \<lparr>buf = Some [0, 0], elemsize = 1, bufsize = 2, nbuf = 0, off = 0,
         lock = False, closed = 1\<rparr>)" "[7]"]
  by (simp add: chanclose_def channbsend_def chanrecv_Some)

text \<open>
  C4 as stated fails for the non-blocking send: on a closed channel with free space
  \<^verbatim>\<open>channbsend\<close> returns 0, the code it also returns on an open channel that is full,
  and not the failure code -1.
\<close>

theorem trysend_after_close_not_closed_error:
  "chanclose ((\<lambda>_. None)(0 \<mapsto> \<lparr>buf = Some [0, 0], elemsize = 1, bufsize = 2, nbuf = 0,
                 off = 0, lock = False, closed = 0\<rparr>)) (Some 0) =
     Returns ((\<lambda>_. None)(0 \<mapsto> \<lparr>buf = Some [0, 0], elemsize = 1, bufsize = 2, nbuf = 0,
                 off = 0, lock = False, closed = 1\<rparr>)) \<and>
   channbsend ((\<lambda>_. None)(0 \<mapsto> \<lparr>buf = Some [0, 0], elemsize = 1, bufsize = 2, nbuf = 0,
                 off = 0, lock = False, closed = 1\<rparr>)) (Some 0) [7] =
     Returns (0, (\<lambda>_. None)(0 \<mapsto> \<lparr>buf = Some [0, 0], elemsize = 1, bufsize = 2, nbuf = 0,
                 off = 0, lock = False, closed = 1\<rparr>)) \<and>
   channbsend ((\<lambda>_. None)(0 \<mapsto> \<lparr>buf = Some [0, 0], elemsize = 1, bufsize = 2, nbuf = 2,
                 off = 0, lock = False, closed = 0\<rparr>)) (Some 0) [7] =
     Returns (0, (\<lambda>_. None)(0 \<mapsto> \<lparr>buf = Some [0, 0], elemsize = 1, bufsize = 2, nbuf = 2,
                 off = 0, lock = False, closed = 0\<rparr>))"
  by (simp add: chanclose_def channbsend_def)

section \<open>The blocking phase of alt\<close>

lemma nb_fail_recv:
  assumes "channbrecv h p v = Returns (0, h', v')"
  shows "(\<exists>w. chanrecv h p v = Blocks w) \<or>
         chanrecv h p v = Returns (- 1, h, v) \<and>
           (p = None \<or> (\<exists>a c. p = Some a \<and> h a = Some c \<and> closed c \<noteq> 0))"
proof (cases p)
  case None
  then show ?thesis by (simp add: chanrecv_def)
next
  case (Some a)
  with assms obtain c where c: "h a = Some c" and "lock c \<or> nbuf c \<le> 0"
    by (auto simp: channbrecv_def split: option.splits if_splits)
  with Some show ?thesis by (auto simp: chanrecv_Some)
qed

lemma nb_fail_send:
  assumes "channbsend h p v = Returns (0, h')"
  shows "(\<exists>w. chansend h p v = Blocks w) \<or>
         chansend h p v = Returns (- 1, h) \<and>
           (p = None \<or> (\<exists>a c. p = Some a \<and> h a = Some c \<and> closed c \<noteq> 0))"
proof (cases p)
  case None
  then show ?thesis by (simp add: chansend_def)
next
  case (Some a)
  with assms obtain c where c: "h a = Some c" and "lock c \<or> closed c \<noteq> 0 \<or> nbuf c \<ge> bufsize c"
    by (auto simp: channbsend_def split: option.splits if_splits)
  with Some show ?thesis by (auto simp: chansend_Some)
qed

lemma alt_loop1_None_rcv:
  assumes "alt_loop1 h alts i = Returns (None, h', alts')" "alt_op (alts ! i) = CHANRCV"
  shows "i < length alts \<and>
         channbrecv h (alt_c (alts ! i)) (alt_v (alts ! i)) = Returns (0, h, alt_v (alts ! i))"
proof -
  from assms(1) have lt: "i < length alts"
    by (subst (asm) alt_loop1.simps) (auto split: if_splits)
  from assms lt obtain r h1 v1 where
    c: "channbrecv h (alt_c (alts ! i)) (alt_v (alts ! i)) = Returns (r, h1, v1)" and r: "r = 0"
    by (auto simp: alt_loop1_rcv split: outcome.splits if_splits)
  from channbrecv_zero[OF c r] c r lt show ?thesis by simp
qed

lemma alt_loop1_None_snd:
  assumes "alt_loop1 h alts i = Returns (None, h', alts')" "alt_op (alts ! i) = CHANSND"
  shows "i < length alts \<and>
         channbsend h (alt_c (alts ! i)) (alt_v (alts ! i)) = Returns (0, h)"
proof -
  from assms(1) have lt: "i < length alts"
    by (subst (asm) alt_loop1.simps) (auto split: if_splits)
  from assms lt obtain r h1 where
    c: "channbsend h (alt_c (alts ! i)) (alt_v (alts ! i)) = Returns (r, h1)" and r: "r = 0"
    by (auto simp: alt_loop1_snd split: outcome.splits if_splits)
  from channbsend_zero[OF c r] c r lt show ?thesis by simp
qed

text \<open>
  C2 (as amended).  When the first loop of \<^verbatim>\<open>alt\<close> finds no entry ready and the first
  entry is a receive or a send, \<^verbatim>\<open>alt\<close> performs the blocking operation of the first
  entry.  Either that operation blocks, and then \<^verbatim>\<open>alt\<close> blocks in it and no later entry
  is attempted; or it fails at once with -1, which happens only for a nil or closed
  channel, leaves the store and the slot as they were, and then \<^verbatim>\<open>alt\<close> goes on with the
  blocking operation of the next entry.
\<close>

theorem alt_blocking_phase:
  assumes scan: "alt_loop1 h alts 0 = Returns (None, h', alts')"
    and op: "alt_op (alts ! 0) = CHANRCV \<or> alt_op (alts ! 0) = CHANSND"
  shows "(\<exists>w. blocking_op h (alts ! 0) = Blocks w \<and> alt h alts = Blocks w) \<or>
         blocking_op h (alts ! 0) = Returns (- 1, h, alt_v (alts ! 0)) \<and>
           alt h alts = alt_loop2 h alts 1 \<and>
           (alt_c (alts ! 0) = None \<or>
            (\<exists>a c. alt_c (alts ! 0) = Some a \<and> h a = Some c \<and> closed c \<noteq> 0))"
proof -
  from alt_loop1_None[OF scan] have same: "h' = h" "alts' = alts" by simp_all
  with scan have a2: "alt h alts = alt_loop2 h alts 0" by (simp add: alt_def)
  have upd: "alts[0 := (alts ! 0)\<lparr>alt_v := alt_v (alts ! 0)\<rparr>] = alts" by simp
  from op show ?thesis
  proof
    assume rcv: "alt_op (alts ! 0) = CHANRCV"
    from alt_loop1_None_rcv[OF scan rcv] have lt: "0 < length alts" and
      nb: "channbrecv h (alt_c (alts ! 0)) (alt_v (alts ! 0)) = Returns (0, h, alt_v (alts ! 0))"
      by simp_all
    from nb_fail_recv[OF nb] show ?thesis
    proof
      assume "\<exists>w. chanrecv h (alt_c (alts ! 0)) (alt_v (alts ! 0)) = Blocks w"
      then obtain w where w: "chanrecv h (alt_c (alts ! 0)) (alt_v (alts ! 0)) = Blocks w" ..
      then have "alt_loop2 h alts 0 = Blocks w" using lt rcv by (simp add: alt_loop2_rcv)
      with w a2 rcv show ?thesis by (simp add: blocking_op_def)
    next
      assume f: "chanrecv h (alt_c (alts ! 0)) (alt_v (alts ! 0)) = Returns (- 1, h, alt_v (alts ! 0)) \<and>
        (alt_c (alts ! 0) = None \<or>
          (\<exists>a c. alt_c (alts ! 0) = Some a \<and> h a = Some c \<and> closed c \<noteq> 0))"
      then have "alt_loop2 h alts 0 = alt_loop2 h alts 1"
        using lt rcv upd by (simp add: alt_loop2_rcv)
      with f a2 rcv show ?thesis by (simp add: blocking_op_def)
    qed
  next
    assume snd: "alt_op (alts ! 0) = CHANSND"
    then have nr: "alt_op (alts ! 0) \<noteq> CHANRCV" by (simp add: CHANSND_def CHANRCV_def)
    from alt_loop1_None_snd[OF scan snd] have lt: "0 < length alts" and
      nb: "channbsend h (alt_c (alts ! 0)) (alt_v (alts ! 0)) = Returns (0, h)"
      by simp_all
    from nb_fail_send[OF nb] show ?thesis
    proof
      assume "\<exists>w. chansend h (alt_c (alts ! 0)) (alt_v (alts ! 0)) = Blocks w"
      then obtain w where w: "chansend h (alt_c (alts ! 0)) (alt_v (alts ! 0)) = Blocks w" ..
      then have "alt_loop2 h alts 0 = Blocks w" using lt snd by (simp add: alt_loop2_snd)
      with w a2 nr show ?thesis by (simp add: blocking_op_def)
    next
      assume f: "chansend h (alt_c (alts ! 0)) (alt_v (alts ! 0)) = Returns (- 1, h) \<and>
        (alt_c (alts ! 0) = None \<or>
          (\<exists>a c. alt_c (alts ! 0) = Some a \<and> h a = Some c \<and> closed c \<noteq> 0))"
      then have "alt_loop2 h alts 0 = alt_loop2 h alts 1"
        using lt snd by (simp add: alt_loop2_snd)
      with f a2 nr show ?thesis by (simp add: blocking_op_def)
    qed
  qed
qed

theorem alt_blocking_phase_witness:
  "blocking_op
     ((\<lambda>_. None)(0 \<mapsto> \<lparr>buf = Some [0], elemsize = 1, bufsize = 1, nbuf = 0, off = 0,
                         lock = False, closed = 0\<rparr>,
                  1 \<mapsto> \<lparr>buf = Some [0], elemsize = 1, bufsize = 1, nbuf = 1, off = 0,
                         lock = False, closed = 0\<rparr>))
     \<lparr>alt_c = Some 0, alt_v = [0], alt_op = CHANRCV\<rparr> = Blocks (NotEmpty 0) \<and>
   alt
     ((\<lambda>_. None)(0 \<mapsto> \<lparr>buf = Some [0], elemsize = 1, bufsize = 1, nbuf = 0, off = 0,
                         lock = False, closed = 0\<rparr>,
                  1 \<mapsto> \<lparr>buf = Some [0], elemsize = 1, bufsize = 1, nbuf = 1, off = 0,
                         lock = False, closed = 0\<rparr>))
     [\<lparr>alt_c = Some 0, alt_v = [0], alt_op = CHANRCV\<rparr>,
      \<lparr>alt_c = Some 1, alt_v = [5], alt_op = CHANSND\<rparr>,
      \<lparr>alt_c = None, alt_v = [], alt_op = CHANEND\<rparr>] = Blocks (NotEmpty 0)"
  using alt_blocking_phase [of
      "(\<lambda>_. None)(0 \<mapsto> \<lparr>buf = Some [0], elemsize = 1, bufsize = 1, nbuf = 0, off = 0,
                         lock = False, closed = 0\<rparr>,
                  1 \<mapsto> \<lparr>buf = Some [0], elemsize = 1, bufsize = 1, nbuf = 1, off = 0,
                         lock = False, closed = 0\<rparr>)"
      "[\<lparr>alt_c = Some 0, alt_v = [0], alt_op = CHANRCV\<rparr>,
        \<lparr>alt_c = Some 1, alt_v = [5], alt_op = CHANSND\<rparr>,
        \<lparr>alt_c = None, alt_v = [], alt_op = CHANEND\<rparr>]"
      "(\<lambda>_. None)(0 \<mapsto> \<lparr>buf = Some [0], elemsize = 1, bufsize = 1, nbuf = 0, off = 0,
                         lock = False, closed = 0\<rparr>,
                  1 \<mapsto> \<lparr>buf = Some [0], elemsize = 1, bufsize = 1, nbuf = 1, off = 0,
                         lock = False, closed = 0\<rparr>)"
      "[\<lparr>alt_c = Some 0, alt_v = [0], alt_op = CHANRCV\<rparr>,
        \<lparr>alt_c = Some 1, alt_v = [5], alt_op = CHANSND\<rparr>,
        \<lparr>alt_c = None, alt_v = [], alt_op = CHANEND\<rparr>]"]
  by (simp add: alt_loop1.simps channbrecv_def channbsend_def blocking_op_def chanrecv_Some
      CHANRCV_def CHANSND_def CHANEND_def CHANNOBLK_def)

text \<open>
  C2 as stated fails: with a receive on a closed, empty channel first and a receive on an
  open, empty channel second, no entry is ready in the first loop, and \<^verbatim>\<open>alt\<close> ends up
  blocked in the blocking receive of the second entry.
\<close>

theorem alt_blocks_on_later_entry:
  "alt_loop1
     ((\<lambda>_. None)(0 \<mapsto> \<lparr>buf = Some [0], elemsize = 1, bufsize = 1, nbuf = 0, off = 0,
                         lock = False, closed = 1\<rparr>,
                  1 \<mapsto> \<lparr>buf = Some [0], elemsize = 1, bufsize = 1, nbuf = 0, off = 0,
                         lock = False, closed = 0\<rparr>))
     [\<lparr>alt_c = Some 0, alt_v = [0], alt_op = CHANRCV\<rparr>,
      \<lparr>alt_c = Some 1, alt_v = [0], alt_op = CHANRCV\<rparr>,
      \<lparr>alt_c = None, alt_v = [], alt_op = CHANEND\<rparr>] 0 =
   Returns (None,
     (\<lambda>_. None)(0 \<mapsto> \<lparr>buf = Some [0], elemsize = 1, bufsize = 1, nbuf = 0, off = 0,
                         lock = False, closed = 1\<rparr>,
                  1 \<mapsto> \<lparr>buf = Some [0], elemsize = 1, bufsize = 1, nbuf = 0, off = 0,
                         lock = False, closed = 0\<rparr>),
     [\<lparr>alt_c = Some 0, alt_v = [0], alt_op = CHANRCV\<rparr>,
      \<lparr>alt_c = Some 1, alt_v = [0], alt_op = CHANRCV\<rparr>,
      \<lparr>alt_c = None, alt_v = [], alt_op = CHANEND\<rparr>]) \<and>
   alt
     ((\<lambda>_. None)(0 \<mapsto> \<lparr>buf = Some [0], elemsize = 1, bufsize = 1, nbuf = 0, off = 0,
                         lock = False, closed = 1\<rparr>,
                  1 \<mapsto> \<lparr>buf = Some [0], elemsize = 1, bufsize = 1, nbuf = 0, off = 0,
                         lock = False, closed = 0\<rparr>))
     [\<lparr>alt_c = Some 0, alt_v = [0], alt_op = CHANRCV\<rparr>,
      \<lparr>alt_c = Some 1, alt_v = [0], alt_op = CHANRCV\<rparr>,
      \<lparr>alt_c = None, alt_v = [], alt_op = CHANEND\<rparr>] =
   Blocks (NotEmpty 1)"
  by (simp add: alt_def alt_loop1.simps alt_loop2.simps channbrecv_def chanrecv_Some
      CHANRCV_def CHANEND_def CHANNOBLK_def)

section \<open>Closed channels in alt\<close>

lemma alt_skip_first:
  assumes "alt_loop1 h alts 0 = alt_loop1 h alts (Suc 0)"
    "alt_loop2 h alts 0 = alt_loop2 h alts (Suc 0)"
  shows "alt h alts = alt_from 1 h alts"
proof (cases "alt_loop1 h alts (Suc 0)")
  case (Returns t)
  obtain x h' alts' where t: "t = (x, h', alts')" by (cases t)
  show ?thesis
  proof (cases x)
    case None
    with Returns t alt_loop1_None[of h alts "Suc 0" h' alts'] have "h' = h" "alts' = alts"
      by simp_all
    with Returns t None assms show ?thesis by (simp add: alt_def alt_from_def)
  next
    case (Some i)
    with Returns t assms show ?thesis by (simp add: alt_def alt_from_def)
  qed
next
  case (Blocks w)
  with assms show ?thesis by (simp add: alt_def alt_from_def)
next
  case Undefined
  with assms show ?thesis by (simp add: alt_def alt_from_def)
qed

text \<open>
  C7 (as amended).  For an array whose first entry targets a closed channel with a free
  mutex: a receive, into a slot of the element size, on a channel that holds at least one
  value (\<open>chan_holds\<close>: the occupied elements lie inside its buffer, as on every channel
  that \<^verbatim>\<open>chancreate\<close> returns and the operations leave) makes \<^verbatim>\<open>alt\<close> return index 0 with
  the front value in the slot and that value removed from the channel; a receive on an
  empty channel, and a send, are passed over by both loops, so that \<^verbatim>\<open>alt\<close> behaves as
  if both loops started at the second entry; and \<^verbatim>\<open>alt\<close> started at the second entry
  returns -1 without blocking when that entry is the sentinel.
\<close>

theorem alt_closed_entry:
  "(h a = Some c \<and> chan_holds c \<and> \<not> lock c \<and> closed c \<noteq> 0 \<and> 0 < nbuf c \<and>
    int (length v) = elemsize c \<longrightarrow>
      (\<exists>c'. alt h (\<lparr>alt_c = Some a, alt_v = v, alt_op = CHANRCV\<rparr> # rest) =
               Returns (0, h(a \<mapsto> c'),
                 \<lparr>alt_c = Some a, alt_v = hd (contents c), alt_op = CHANRCV\<rparr> # rest) \<and>
             contents c' = tl (contents c) \<and> closed c' = closed c)) \<and>
   (h a = Some c \<and> \<not> lock c \<and> closed c \<noteq> 0 \<and> nbuf c \<le> 0 \<longrightarrow>
      alt h (\<lparr>alt_c = Some a, alt_v = v, alt_op = CHANRCV\<rparr> # rest) =
      alt_from 1 h (\<lparr>alt_c = Some a, alt_v = v, alt_op = CHANRCV\<rparr> # rest)) \<and>
   (h a = Some c \<and> \<not> lock c \<and> closed c \<noteq> 0 \<longrightarrow>
      alt h (\<lparr>alt_c = Some a, alt_v = v, alt_op = CHANSND\<rparr> # rest) =
      alt_from 1 h (\<lparr>alt_c = Some a, alt_v = v, alt_op = CHANSND\<rparr> # rest)) \<and>
   (alt_op e1 = CHANEND \<longrightarrow> alt_from 1 h (e0 # e1 # rest) = Returns (- 1, h, e0 # e1 # rest))"
proof (intro conjI impI)
  assume "h a = Some c \<and> chan_holds c \<and> \<not> lock c \<and> closed c \<noteq> 0 \<and> 0 < nbuf c \<and>
    int (length v) = elemsize c"
  then have p: "h a = Some c" "chan_holds c" "\<not> lock c" "0 < nbuf c"
    "elemsize c \<le> int (length v)" and dv: "drop (nat (elemsize c)) v = []"
    by auto
  from channbrecv_holds[of h a c v, OF p] dv obtain c' where
    nb: "channbrecv h (Some a) v = Returns (1, h(a \<mapsto> c'), hd (contents c))" and
    ct: "contents c' = tl (contents c)" "closed c' = closed c"
    by auto
  have "alt h (\<lparr>alt_c = Some a, alt_v = v, alt_op = CHANRCV\<rparr> # rest) =
          Returns (0, h(a \<mapsto> c'),
            \<lparr>alt_c = Some a, alt_v = hd (contents c), alt_op = CHANRCV\<rparr> # rest)"
    by (simp add: alt_def alt_loop1_rcv nb)
  with ct show "\<exists>c'. alt h (\<lparr>alt_c = Some a, alt_v = v, alt_op = CHANRCV\<rparr> # rest) =
               Returns (0, h(a \<mapsto> c'),
                 \<lparr>alt_c = Some a, alt_v = hd (contents c), alt_op = CHANRCV\<rparr> # rest) \<and>
             contents c' = tl (contents c) \<and> closed c' = closed c"
    by blast
next
  assume "h a = Some c \<and> \<not> lock c \<and> closed c \<noteq> 0 \<and> nbuf c \<le> 0"
  then have nb: "channbrecv h (Some a) v = Returns (0, h, v)"
    and b: "chanrecv h (Some a) v = Returns (- 1, h, v)"
    by (simp_all add: channbrecv_def chanrecv_Some)
  show "alt h (\<lparr>alt_c = Some a, alt_v = v, alt_op = CHANRCV\<rparr> # rest) =
        alt_from 1 h (\<lparr>alt_c = Some a, alt_v = v, alt_op = CHANRCV\<rparr> # rest)"
    by (rule alt_skip_first) (simp_all add: alt_loop1_rcv alt_loop2_rcv nb b)
next
  assume "h a = Some c \<and> \<not> lock c \<and> closed c \<noteq> 0"
  then have nb: "channbsend h (Some a) v = Returns (0, h)"
    and b: "chansend h (Some a) v = Returns (- 1, h)"
    by (simp_all add: channbsend_def chansend_Some)
  show "alt h (\<lparr>alt_c = Some a, alt_v = v, alt_op = CHANSND\<rparr> # rest) =
        alt_from 1 h (\<lparr>alt_c = Some a, alt_v = v, alt_op = CHANSND\<rparr> # rest)"
    by (rule alt_skip_first) (simp_all add: alt_loop1_snd alt_loop2_snd nb b)
next
  assume "alt_op e1 = CHANEND"
  then show "alt_from 1 h (e0 # e1 # rest) = Returns (- 1, h, e0 # e1 # rest)"
    by (simp add: alt_from_def alt_loop1_end alt_loop2_end)
qed

theorem alt_closed_entry_witness:
  "(\<exists>c'. alt ((\<lambda>_. None)(0 \<mapsto> \<lparr>buf = Some [8], elemsize = 1, bufsize = 1, nbuf = 1, off = 0,
                  lock = False, closed = 1\<rparr>))
            [\<lparr>alt_c = Some 0, alt_v = [0], alt_op = CHANRCV\<rparr>,
             \<lparr>alt_c = None, alt_v = [], alt_op = CHANEND\<rparr>] =
          Returns (0,
            ((\<lambda>_. None)(0 \<mapsto> \<lparr>buf = Some [8], elemsize = 1, bufsize = 1, nbuf = 1, off = 0,
                  lock = False, closed = 1\<rparr>))(0 \<mapsto> c'),
            [\<lparr>alt_c = Some 0, alt_v = [8], alt_op = CHANRCV\<rparr>,
             \<lparr>alt_c = None, alt_v = [], alt_op = CHANEND\<rparr>]) \<and>
          contents c' = [] \<and> closed c' = 1) \<and>
   alt ((\<lambda>_. None)(0 \<mapsto> \<lparr>buf = Some [8], elemsize = 1, bufsize = 1, nbuf = 0, off = 0,
                  lock = False, closed = 1\<rparr>))
     [\<lparr>alt_c = Some 0, alt_v = [0], alt_op = CHANRCV\<rparr>,
      \<lparr>alt_c = None, alt_v = [], alt_op = CHANEND\<rparr>] =
     Returns (- 1,
       (\<lambda>_. None)(0 \<mapsto> \<lparr>buf = Some [8], elemsize = 1, bufsize = 1, nbuf = 0, off = 0,
                  lock = False, closed = 1\<rparr>),
       [\<lparr>alt_c = Some 0, alt_v = [0], alt_op = CHANRCV\<rparr>,
        \<lparr>alt_c = None, alt_v = [], alt_op = CHANEND\<rparr>]) \<and>
   alt ((\<lambda>_. None)(0 \<mapsto> \<lparr>buf = Some [8], elemsize = 1, bufsize = 1, nbuf = 0, off = 0,
                  lock = False, closed = 1\<rparr>))
     [\<lparr>alt_c = Some 0, alt_v = [3], alt_op = CHANSND\<rparr>,
      \<lparr>alt_c = None, alt_v = [], alt_op = CHANEND\<rparr>] =
     Returns (- 1,
       (\<lambda>_. None)(0 \<mapsto> \<lparr>buf = Some [8], elemsize = 1, bufsize = 1, nbuf = 0, off = 0,
                  lock = False, closed = 1\<rparr>),
       [\<lparr>alt_c = Some 0, alt_v = [3], alt_op = CHANSND\<rparr>,
        \<lparr>alt_c = None, alt_v = [], alt_op = CHANEND\<rparr>])"
proof -
  let ?full = "\<lparr>buf = Some [8], elemsize = 1, bufsize = 1, nbuf = 1, off = 0,
                 lock = False, closed = 1\<rparr>"
  let ?empty = "\<lparr>buf = Some [8], elemsize = 1, bufsize = 1, nbuf = 0, off = 0,
                  lock = False, closed = 1\<rparr>"
  let ?end = "\<lparr>alt_c = None, alt_v = [], alt_op = CHANEND\<rparr>"
  let ?rcv = "\<lparr>alt_c = Some 0, alt_v = [0], alt_op = CHANRCV\<rparr>"
  let ?snd = "\<lparr>alt_c = Some 0, alt_v = [3], alt_op = CHANSND\<rparr>"
  have ct: "contents ?full = [[8]]"
    by code_simp
  have w: "chan_holds ?full"
    by code_simp
  note a = alt_closed_entry [of "(\<lambda>_. None)(0 \<mapsto> ?full)" 0 ?full "[0]" "[?end]" ?end ?rcv]
  note b = alt_closed_entry [of "(\<lambda>_. None)(0 \<mapsto> ?empty)" 0 ?empty "[0]" "[?end]" ?end ?rcv]
  note b' = alt_closed_entry [of "(\<lambda>_. None)(0 \<mapsto> ?empty)" 0 ?empty "[0]" "[]" ?end ?rcv]
  note c = alt_closed_entry [of "(\<lambda>_. None)(0 \<mapsto> ?empty)" 0 ?empty "[3]" "[?end]" ?end ?snd]
  note c' = alt_closed_entry [of "(\<lambda>_. None)(0 \<mapsto> ?empty)" 0 ?empty "[3]" "[]" ?end ?snd]
  from a w ct have 1: "\<exists>c'. alt ((\<lambda>_. None)(0 \<mapsto> ?full)) [?rcv, ?end] =
      Returns (0, ((\<lambda>_. None)(0 \<mapsto> ?full))(0 \<mapsto> c'),
        [\<lparr>alt_c = Some 0, alt_v = [8], alt_op = CHANRCV\<rparr>, ?end]) \<and>
      contents c' = [] \<and> closed c' = 1"
    by simp
  from b b' have 2: "alt ((\<lambda>_. None)(0 \<mapsto> ?empty)) [?rcv, ?end] =
      Returns (- 1, (\<lambda>_. None)(0 \<mapsto> ?empty), [?rcv, ?end])"
    by simp
  from c c' have 3: "alt ((\<lambda>_. None)(0 \<mapsto> ?empty)) [?snd, ?end] =
      Returns (- 1, (\<lambda>_. None)(0 \<mapsto> ?empty), [?snd, ?end])"
    by simp
  from 1 2 3 show ?thesis by blast
qed

text \<open>
  C7 as stated fails: a send on a closed channel followed by a receive on an open, empty
  channel leaves \<^verbatim>\<open>alt\<close> blocked on the second channel, and a receive on a closed, empty
  channel followed by a receive on a channel holding a value makes \<^verbatim>\<open>alt\<close> return
  index 1 with that value.
\<close>

theorem alt_closed_entry_not_ready:
  "alt
     ((\<lambda>_. None)(0 \<mapsto> \<lparr>buf = Some [0], elemsize = 1, bufsize = 1, nbuf = 0, off = 0,
                         lock = False, closed = 1\<rparr>,
                  1 \<mapsto> \<lparr>buf = Some [0], elemsize = 1, bufsize = 1, nbuf = 0, off = 0,
                         lock = False, closed = 0\<rparr>))
     [\<lparr>alt_c = Some 0, alt_v = [5], alt_op = CHANSND\<rparr>,
      \<lparr>alt_c = Some 1, alt_v = [0], alt_op = CHANRCV\<rparr>,
      \<lparr>alt_c = None, alt_v = [], alt_op = CHANEND\<rparr>] =
   Blocks (NotEmpty 1) \<and>
   alt
     ((\<lambda>_. None)(0 \<mapsto> \<lparr>buf = Some [0], elemsize = 1, bufsize = 1, nbuf = 0, off = 0,
                         lock = False, closed = 1\<rparr>,
                  1 \<mapsto> \<lparr>buf = Some [8], elemsize = 1, bufsize = 1, nbuf = 1, off = 0,
                         lock = False, closed = 0\<rparr>))
     [\<lparr>alt_c = Some 0, alt_v = [0], alt_op = CHANRCV\<rparr>,
      \<lparr>alt_c = Some 1, alt_v = [0], alt_op = CHANRCV\<rparr>,
      \<lparr>alt_c = None, alt_v = [], alt_op = CHANEND\<rparr>] =
   Returns (1,
     (\<lambda>_. None)(0 \<mapsto> \<lparr>buf = Some [0], elemsize = 1, bufsize = 1, nbuf = 0, off = 0,
                         lock = False, closed = 1\<rparr>,
                  1 \<mapsto> \<lparr>buf = Some [8], elemsize = 1, bufsize = 1, nbuf = 0, off = 0,
                         lock = False, closed = 0\<rparr>),
     [\<lparr>alt_c = Some 0, alt_v = [0], alt_op = CHANRCV\<rparr>,
      \<lparr>alt_c = Some 1, alt_v = [8], alt_op = CHANRCV\<rparr>,
      \<lparr>alt_c = None, alt_v = [], alt_op = CHANEND\<rparr>])"
  by (simp add: alt_def alt_loop1.simps alt_loop2.simps channbrecv_def channbsend_def
      chanrecv_Some chansend_Some get_elem_def memcpy_def signed_modulo_int_def wrap32_def
      CHANRCV_def CHANSND_def CHANEND_def CHANNOBLK_def)

end
